theory Spec2Isabelle
  imports Complex_Main "HOL-Library.AList" "HOL-Library.Log_Nat" "HOL-Library.Sublist"
begin

section \<open>Python values used by whatsapp_analyzer.py\<close>

text \<open>
  A Python \<open>str\<close> is a sequence of Unicode code points; a code point is a natural number.
  \<open>str_of\<close> turns an ASCII literal of the source into such a sequence.
\<close>

type_synonym pystr = "nat list"

definition str_of :: "string \<Rightarrow> pystr" where
  "str_of s = map of_char s"

text \<open>Exceptions are values: a computation returns \<open>Inl\<close> of the exception or \<open>Inr\<close> of its result.\<close>

datatype py_error = ZeroDivisionError | OverflowError | TypeError | ValueError | KeyError
  | IndexError

definition and_then :: "py_error + 'a \<Rightarrow> ('a \<Rightarrow> py_error + 'b) \<Rightarrow> py_error + 'b" where
  "and_then m f = (case m of Inl e \<Rightarrow> Inl e | Inr x \<Rightarrow> f x)"

subsection \<open>Dictionaries\<close>

text \<open>
  A \<open>dict\<close> keeps its keys in insertion order; assigning to a key that is present keeps the
  key's position. It is modelled as an association list with that update.
\<close>

type_synonym ('k, 'v) dict = "('k \<times> 'v) list"

definition dict_get :: "('k, 'v) dict \<Rightarrow> 'k \<Rightarrow> 'v \<Rightarrow> 'v" where
  "dict_get d k dflt = (case map_of d k of None \<Rightarrow> dflt | Some v \<Rightarrow> v)"

definition dict_set :: "('k, 'v) dict \<Rightarrow> 'k \<Rightarrow> 'v \<Rightarrow> ('k, 'v) dict" where
  "dict_set d k v = AList.update k v d"

definition dict_index :: "('k, 'v) dict \<Rightarrow> 'k \<Rightarrow> py_error + 'v" where
  "dict_index d k = (case map_of d k of None \<Rightarrow> Inl KeyError | Some v \<Rightarrow> Inr v)"

definition dict_keys :: "('k, 'v) dict \<Rightarrow> 'k list" where
  "dict_keys d = map fst d"

definition dict_values :: "('k, 'v) dict \<Rightarrow> 'v list" where
  "dict_values d = map snd d"

definition dict_items :: "('k, 'v) dict \<Rightarrow> ('k \<times> 'v) list" where
  "dict_items d = d"

definition dict :: "('k \<times> 'v) list \<Rightarrow> ('k, 'v) dict" where
  "dict ps = fold (\<lambda>(k, v) d. dict_set d k v) ps []"

definition Counter :: "'k list \<Rightarrow> ('k, int) dict" where
  "Counter data = fold (\<lambda>x c. dict_set c x (dict_get c x 0 + 1)) data []"

subsection \<open>Sorting, maxima, slices\<close>

text \<open>
  \<open>sorted(xs, key=f, reverse=r)\<close> is stable; with \<open>reverse=True\<close> every comparison is
  reversed and equal keys still keep their order, which for integer keys is the stable
  ascending sort by the negated key.
\<close>

definition sorted_py :: "('a \<Rightarrow> int) \<Rightarrow> bool \<Rightarrow> 'a list \<Rightarrow> 'a list" where
  "sorted_py key reverse xs = (if reverse then sort_key (\<lambda>x. - key x) xs else sort_key key xs)"

definition first :: "'a list \<Rightarrow> py_error + 'a" where
  "first xs = (case xs of [] \<Rightarrow> Inl IndexError | x # _ \<Rightarrow> Inr x)"

definition py_max :: "int list \<Rightarrow> py_error + int" where
  "py_max xs = (case xs of [] \<Rightarrow> Inl ValueError | x # rest \<Rightarrow> Inr (fold max rest x))"

text \<open>\<open>max(xs, key=f)\<close> returns the first element whose key is maximal.\<close>

definition max_by :: "('a \<Rightarrow> int) \<Rightarrow> 'a list \<Rightarrow> py_error + 'a" where
  "max_by key xs =
     (case xs of [] \<Rightarrow> Inl ValueError
      | x # rest \<Rightarrow> Inr (fold (\<lambda>y m. if key m < key y then y else m) rest x))"

text \<open>The slices \<open>data[:n]\<close> and \<open>data[n:]\<close>; a negative \<open>n\<close> counts from the end.\<close>

definition slice_to :: "int \<Rightarrow> 'a list \<Rightarrow> 'a list" where
  "slice_to n xs = (if 0 \<le> n then take (nat n) xs else take (nat (int (length xs) + n)) xs)"

definition slice_from :: "int \<Rightarrow> 'a list \<Rightarrow> 'a list" where
  "slice_from n xs = (if 0 \<le> n then drop (nat n) xs else drop (nat (int (length xs) + n)) xs)"

subsection \<open>Floats\<close>

text \<open>
  A finite \<open>float\<close> is the rational number it denotes. Every arithmetic operation of
  Python rounds the exact result to the nearest double, ties to the even significand:
  \<open>round_double\<close> keeps 53 significant bits. \<open>exponent x\<close> is the integer \<open>e\<close> with
  \<open>2 ^ e \<le> \<bar>x\<bar> < 2 ^ (e + 1)\<close>.

  The exponent range enters at the places where Python raises: converting an integer, or
  dividing two integers, whose rounded value reaches \<open>2 ^ 1024\<close> is an \<open>OverflowError\<close>;
  a float quotient that reaches \<open>2 ^ 1024\<close> is \<open>inf\<close>, which \<open>int\<close> refuses with an
  \<open>OverflowError\<close>. Subnormal results are rounded to 53 bits like the others: the program
  only truncates such a quotient to the integer 0, and every other product or quotient it
  forms has magnitude at least \<open>1 / 50\<close>.
\<close>

definition exponent :: "rat \<Rightarrow> int" where
  "exponent x =
     (if 1 \<le> \<bar>x\<bar> then bitlen \<lfloor>\<bar>x\<bar>\<rfloor> - 1 else - bitlen (\<lceil>1 / \<bar>x\<bar>\<rceil> - 1))"

definition round_half_even :: "rat \<Rightarrow> int" where
  "round_half_even q =
     (let f = \<lfloor>q\<rfloor>; d = q - of_int f
      in if d < 1 / 2 then f else if 1 / 2 < d then f + 1 else if even f then f else f + 1)"

definition round_double :: "rat \<Rightarrow> rat" where
  "round_double x =
     (if x = 0 then 0
      else let u = 2 powi (exponent x - 52) in of_int (round_half_even (x / u)) * u)"

definition overflows :: "rat \<Rightarrow> bool" where
  "overflows r \<longleftrightarrow> 2 ^ 1024 \<le> \<bar>r\<bar>"

definition float_of_int :: "int \<Rightarrow> py_error + rat" where
  "float_of_int n =
     (let r = round_double (of_int n) in if overflows r then Inl OverflowError else Inr r)"

definition int_truediv :: "int \<Rightarrow> int \<Rightarrow> py_error + rat" where
  "int_truediv a b =
     (if b = 0 then Inl ZeroDivisionError
      else let r = round_double (of_int a / of_int b)
           in if overflows r then Inl OverflowError else Inr r)"

definition float_truediv :: "rat \<Rightarrow> rat \<Rightarrow> py_error + rat" where
  "float_truediv x y = (if y = 0 then Inl ZeroDivisionError else Inr (round_double (x / y)))"

definition int_float_truediv :: "int \<Rightarrow> rat \<Rightarrow> py_error + rat" where
  "int_float_truediv a y = and_then (float_of_int a) (\<lambda>x. float_truediv x y)"

definition float_mul :: "rat \<Rightarrow> rat \<Rightarrow> rat" where
  "float_mul x y = round_double (x * y)"

definition int_of_float :: "rat \<Rightarrow> py_error + int" where
  "int_of_float r =
     (if overflows r then Inl OverflowError else Inr (if 0 \<le> r then \<lfloor>r\<rfloor> else \<lceil>r\<rceil>))"

subsection \<open>String methods\<close>

text \<open>
  \<open>isalnum\<close>, \<open>isnumeric\<close> and \<open>lower\<close> read the Unicode character database, which is
  not part of the program: the model takes its tables as a parameter. \<open>ascii_db\<close> is the
  restriction of the tables to ASCII.
\<close>

record unicode_db =
  isalpha_cp :: "nat \<Rightarrow> bool"
  isdecimal_cp :: "nat \<Rightarrow> bool"
  isdigit_cp :: "nat \<Rightarrow> bool"
  isnumeric_cp :: "nat \<Rightarrow> bool"
  lower_str :: "pystr \<Rightarrow> pystr"

definition isalnum :: "unicode_db \<Rightarrow> pystr \<Rightarrow> bool" where
  "isalnum U w \<longleftrightarrow>
     w \<noteq> [] \<and>
     list_all (\<lambda>c. isalpha_cp U c \<or> isdecimal_cp U c \<or> isdigit_cp U c \<or> isnumeric_cp U c) w"

definition isnumeric :: "unicode_db \<Rightarrow> pystr \<Rightarrow> bool" where
  "isnumeric U w \<longleftrightarrow> w \<noteq> [] \<and> list_all (isnumeric_cp U) w"

definition lower :: "unicode_db \<Rightarrow> pystr \<Rightarrow> pystr" where
  "lower U w = lower_str U w"

definition ascii_letter :: "nat \<Rightarrow> bool" where
  "ascii_letter c \<longleftrightarrow> (65 \<le> c \<and> c \<le> 90) \<or> (97 \<le> c \<and> c \<le> 122)"

definition ascii_digit :: "nat \<Rightarrow> bool" where
  "ascii_digit c \<longleftrightarrow> 48 \<le> c \<and> c \<le> 57"

definition ascii_lower :: "pystr \<Rightarrow> pystr" where
  "ascii_lower w = map (\<lambda>c. if 65 \<le> c \<and> c \<le> 90 then c + 32 else c) w"

definition ascii_db :: unicode_db where
  "ascii_db = \<lparr>isalpha_cp = ascii_letter, isdecimal_cp = ascii_digit, isdigit_cp = ascii_digit,
     isnumeric_cp = ascii_digit, lower_str = ascii_lower\<rparr>"

section \<open>Parsing and counting\<close>

text \<open>
  The fields of a \<open>Chatline\<close> that \<open>main\<close> reads. A timestamp is a naive \<open>datetime\<close>,
  counted in microseconds; \<open>None\<close> is an absent timestamp or sender.
\<close>

datatype line_type = Chat | Event | Other_line

record chatline =
  line_type :: line_type
  timestamp :: "int option"
  sender :: "pystr option"
  is_deleted_chat :: bool
  words :: "pystr list"
  emojis :: "pystr list"
  domains :: "pystr list"

record chat_counter =
  chat_count :: int
  deleted_chat_count :: int
  event_count :: int
  senders :: "pystr list"
  timestamps :: "int list"
  all_words :: "pystr list"
  all_domains :: "pystr list"
  all_emojis :: "pystr list"
  fav_emoji :: "(pystr \<times> pystr) list"
  fav_word :: "(pystr \<times> pystr) list"

definition chat_counter_init :: chat_counter where
  "chat_counter_init = \<lparr>chat_count = 0, deleted_chat_count = 0, event_count = 0, senders = [],
     timestamps = [], all_words = [], all_domains = [], all_emojis = [], fav_emoji = [],
     fav_word = []\<rparr>"

text \<open>\<open>end_date = parse(args.endDate) + timedelta(days=1, microseconds=-1)\<close>\<close>

definition end_date_of :: "int \<Rightarrow> int" where
  "end_date_of parsed = parsed + 86400 * 1000000 - 1"

text \<open>Comparing \<open>None\<close> with a \<open>datetime\<close> raises \<open>TypeError\<close>.\<close>

definition timestamp_lt :: "int option \<Rightarrow> int \<Rightarrow> py_error + bool" where
  "timestamp_lt t d = (case t of None \<Rightarrow> Inl TypeError | Some v \<Rightarrow> Inr (v < d))"

definition timestamp_ge :: "int option \<Rightarrow> int \<Rightarrow> py_error + bool" where
  "timestamp_ge t d = (case t of None \<Rightarrow> Inl TypeError | Some v \<Rightarrow> Inr (d \<le> v))"

text \<open>
  The two tests at the head of the loop body; \<open>Inr True\<close> when neither \<open>continue\<close> is
  taken, so that the line is counted.
\<close>

definition date_filter :: "int option \<Rightarrow> int option \<Rightarrow> chatline \<Rightarrow> py_error + bool" where
  "date_filter start_date end_date c =
     and_then (case start_date of None \<Rightarrow> Inr False | Some s \<Rightarrow> timestamp_lt (timestamp c) s)
       (\<lambda>too_early. if too_early then Inr False
          else and_then
            (case end_date of None \<Rightarrow> Inr False | Some e \<Rightarrow> timestamp_ge (timestamp c) e)
            (\<lambda>too_late. Inr (\<not> too_late)))"

definition count_line :: "chat_counter \<Rightarrow> chatline \<Rightarrow> chat_counter" where
  "count_line cc c =
     (let cc = (if line_type c = Chat then cc\<lparr>chat_count := chat_count cc + 1\<rparr> else cc);
          cc = (if line_type c = Event then cc\<lparr>event_count := event_count cc + 1\<rparr> else cc);
          cc = (if is_deleted_chat c
                then cc\<lparr>deleted_chat_count := deleted_chat_count cc + 1\<rparr> else cc);
          cc = (case sender c of None \<Rightarrow> cc
                | Some s \<Rightarrow> cc\<lparr>senders := senders cc @ [s],
                    fav_emoji := fav_emoji cc @ map (\<lambda>i. (s, i)) (emojis c),
                    fav_word := fav_word cc @ map (\<lambda>i. (s, i)) (words c)\<rparr>);
          cc = (case timestamp c of None \<Rightarrow> cc
                | Some t \<Rightarrow> cc\<lparr>timestamps := timestamps cc @ [t]\<rparr>);
          cc = (if length (words c) > 0 then cc\<lparr>all_words := all_words cc @ words c\<rparr> else cc);
          cc = (if length (emojis c) > 0
                then cc\<lparr>all_emojis := all_emojis cc @ emojis c\<rparr> else cc);
          cc = (if length (domains c) > 0
                then cc\<lparr>all_domains := all_domains cc @ domains c\<rparr> else cc)
      in cc)"

fun read_lines ::
  "int option \<Rightarrow> int option \<Rightarrow> chatline list \<Rightarrow> chat_counter \<Rightarrow> py_error + chat_counter" where
  "read_lines start_date end_date [] cc = Inr cc"
| "read_lines start_date end_date (c # rest) cc =
     and_then (date_filter start_date end_date c)
       (\<lambda>keep. read_lines start_date end_date rest (if keep then count_line cc c else cc))"

text \<open>
  \<open>parse_and_count\<close> is the loop of \<open>main\<close> from the parsed command-line dates
  (\<open>None\<close> when the option is not given).
\<close>

definition parse_and_count ::
  "int option \<Rightarrow> int option \<Rightarrow> chatline list \<Rightarrow> py_error + chat_counter" where
  "parse_and_count startDate endDate lines =
     read_lines startDate (map_option end_date_of endDate) lines chat_counter_init"

section \<open>Reduce and order data\<close>

definition reduce_and_sort :: "'k list \<Rightarrow> ('k \<times> int) list" where
  "reduce_and_sort data =
     sorted_py snd True
       (dict_items (dict (zip (dict_keys (Counter data)) (dict_values (Counter data)))))"

definition filter_single_word :: "unicode_db \<Rightarrow> pystr list \<Rightarrow> pystr \<Rightarrow> bool" where
  "filter_single_word U stop_words w \<longleftrightarrow>
     length w > 1 \<and> isalnum U w \<and> \<not> isnumeric U w \<and> lower U w \<notin> set stop_words"

definition reduce_and_filter_words :: "unicode_db \<Rightarrow> pystr list \<Rightarrow> pystr list \<Rightarrow> pystr list" where
  "reduce_and_filter_words U stop_words list_of_words =
     [lower U w. w \<leftarrow> list_of_words,
        length w > 1 \<and> isalnum U w \<and> \<not> isnumeric U w \<and> lower U w \<notin> set stop_words]"

fun fav_loop ::
  "(('a \<times> 'b) \<times> int) list \<Rightarrow> 'a list \<Rightarrow> (('a \<times> 'b) \<times> int) list \<Rightarrow> (('a \<times> 'b) \<times> int) list" where
  "fav_loop [] exist arr = arr"
| "fav_loop (i # data) exist arr =
     (if snd i > 0 \<and> fst (fst i) \<notin> set exist
      then fav_loop data (exist @ [fst (fst i)]) (arr @ [i])
      else fav_loop data exist arr)"

definition reduce_fav_item :: "(('a \<times> 'b) \<times> int) list \<Rightarrow> (('a \<times> 'b) \<times> int) list" where
  "reduce_fav_item data = fav_loop data [] []"

text \<open>The tables \<open>main\<close> stores back into \<open>chat_counter\<close>.\<close>

definition words_table :: "unicode_db \<Rightarrow> pystr list \<Rightarrow> chat_counter \<Rightarrow> (pystr \<times> int) list" where
  "words_table U stop_words cc =
     reduce_and_sort (reduce_and_filter_words U stop_words (all_words cc))"

definition fav_word_ranked ::
  "unicode_db \<Rightarrow> pystr list \<Rightarrow> chat_counter \<Rightarrow> ((pystr \<times> pystr) \<times> int) list" where
  "fav_word_ranked U stop_words cc =
     reduce_and_sort [x. x \<leftarrow> fav_word cc, filter_single_word U stop_words (snd x)]"

definition fav_word_table ::
  "unicode_db \<Rightarrow> pystr list \<Rightarrow> chat_counter \<Rightarrow> ((pystr \<times> pystr) \<times> int) list" where
  "fav_word_table U stop_words cc = reduce_fav_item (fav_word_ranked U stop_words cc)"

definition fav_emoji_table :: "chat_counter \<Rightarrow> ((pystr \<times> pystr) \<times> int) list" where
  "fav_emoji_table cc = reduce_fav_item (reduce_and_sort (fav_emoji cc))"

section \<open>Visualize\<close>

text \<open>
  The report is a list of lines. A line keeps what it shows and leaves out the colour
  escapes of \<open>Color\<close>: \<open>Bar label n value\<close> is a bar of \<open>n\<close> fill glyphs, \<open>Separator\<close> the
  line \<open>---\<close>, \<open>Rule\<close> the line of 50 dashes, \<open>Other_summary n s\<close> the line
  \<open>Other n ... | s\<close>. The glyphs of the calendar are \<open>No_data\<close> for \<open>===\<close> and
  \<open>Level1\<close> to \<open>Level4\<close> for the light, medium and dark shades and the full block.
\<close>

datatype tick = No_data | Level1 | Level2 | Level3 | Level4

datatype line = Rule | Title string | Stat string int | Average rat | Blank | Separator
  | Empty_data | Bar pystr nat int | Other_summary nat int
  | Calendar_header "pystr list" | Calendar_row pystr "tick list"

definition printBar :: "int \<Rightarrow> int \<Rightarrow> pystr \<Rightarrow> int \<Rightarrow> py_error + line list" where
  "printBar val tot label len =
     and_then (int_truediv tot len) (\<lambda>scale.
     and_then (int_float_truediv val scale) (\<lambda>quotient.
     and_then (int_of_float quotient) (\<lambda>filledLength.
       Inr [Bar label (nat filledLength) val])))"

fun print_bars :: "(pystr \<times> int) list \<Rightarrow> int \<Rightarrow> nat \<Rightarrow> py_error + line list" where
  "print_bars [] tot max_label_length = Inr []"
| "print_bars (i # rest) tot max_label_length =
     and_then
       (printBar (snd i) tot (fst i @ replicate (max_label_length - length (fst i)) 32) 50)
       (\<lambda>bar. and_then (print_bars rest tot max_label_length) (\<lambda>bars. Inr (bar @ bars)))"

definition printBarChart :: "(pystr \<times> int) list \<Rightarrow> py_error + line list" where
  "printBarChart data =
     (if length data \<le> 0 then Inr [Empty_data]
      else and_then (py_max (map snd data)) (\<lambda>tot.
           and_then (first (sorted_py (\<lambda>tup. int (length (fst tup))) True data)) (\<lambda>longest.
             print_bars data tot (length (fst longest)))))"

fun str_nat :: "nat \<Rightarrow> pystr" where
  "str_nat n = (if n < 10 then [48 + n] else str_nat (n div 10) @ [48 + n mod 10])"

definition days :: "pystr list" where
  "days = map str_of [''Monday'', ''Tuesday'', ''Wednesday'', ''Thursday'', ''Friday'',
     ''Saturday'', ''Sunday'']"

definition hours :: "pystr list" where
  "hours = map (\<lambda>x. if length (str_nat x) < 2 then 48 # str_nat x else str_nat x) [0..<24]"

definition calendar_tick :: "(pystr \<times> pystr, int) dict \<Rightarrow> rat list \<Rightarrow> pystr \<times> pystr \<Rightarrow> tick" where
  "calendar_tick data ticks dict_key =
     (case map_of data dict_key of
        None \<Rightarrow> No_data
      | Some v \<Rightarrow>
          if of_int v > ticks ! 3 then Level4
          else if of_int v > ticks ! 2 then Level3
          else if of_int v > ticks ! 1 then Level2
          else Level1)"

definition printCalendar :: "(pystr \<times> pystr, int) dict \<Rightarrow> py_error + line list" where
  "printCalendar data =
     and_then
       (if length data \<noteq> 0
        then and_then (max_by (\<lambda>k. dict_get data k 0) (dict_keys data)) (\<lambda>k.
             and_then (dict_index data k) float_of_int)
        else Inr 0)
       (\<lambda>max_val.
          let ticks = [0, float_mul (1 / 4) max_val, float_mul (1 / 2) max_val,
                       float_mul (3 / 4) max_val]
          in Inr (Calendar_header (map (take 3) days) #
                  map (\<lambda>hour. Calendar_row hour
                         (map (\<lambda>day. calendar_tick data ticks (day, hour)) days)) hours))"

subsection \<open>The sections of the report\<close>

text \<open>\<open>sample_size\<close> is \<open>args.size\<close>.\<close>

definition section_senders :: "int \<Rightarrow> (pystr \<times> int) list \<Rightarrow> py_error + line list" where
  "section_senders sample_size data =
     and_then (if length data \<noteq> 0
               then int_truediv (sum_list (map snd data)) (int (length data)) else Inr 0)
       (\<lambda>average.
     and_then (printBarChart (slice_to sample_size data)) (\<lambda>chart.
       Inr ([Rule, Title ''Chat Count by Sender'', Rule,
             Stat ''Active Sender'' (int (length data)),
             Stat ''Total Chat'' (sum_list (map snd data)),
             Average average, Blank]
            @ chart
            @ (if int (length data) > sample_size
               then [Separator,
                     Other_summary (length (slice_from sample_size data))
                       (sum_list (map snd (slice_from sample_size data)))]
               else [])
            @ [Blank, Blank])))"

definition section_domains :: "int \<Rightarrow> (pystr \<times> int) list \<Rightarrow> py_error + line list" where
  "section_domains sample_size data =
     and_then (printBarChart (slice_to sample_size data)) (\<lambda>chart.
       Inr ([Rule, Title ''Mentioned Domain (Shared Link/URL)'', Rule,
             Stat ''Domain Count'' (int (length data)),
             Stat ''Mention Count'' (sum_list (map snd data)), Blank]
            @ chart
            @ (if int (length data) > sample_size
               then [Separator,
                     Other_summary (length (slice_from sample_size data))
                       (sum_list (map snd (slice_from sample_size data)))]
               else [])
            @ [Blank, Blank]))"

definition section_emojis ::
  "(pystr \<Rightarrow> pystr) \<Rightarrow> int \<Rightarrow> (pystr \<times> int) list \<Rightarrow> py_error + line list" where
  "section_emojis demojize sample_size table =
     (let data = map (\<lambda>x. (fst x @ str_of '' ('' @ demojize (fst x) @ str_of '') '', snd x)) table
      in and_then (printBarChart (slice_to sample_size data)) (\<lambda>chart.
           Inr ([Rule, Title ''Used Emoji'', Rule,
                 Stat ''Unique Emoji'' (int (length data)),
                 Stat ''Total Count'' (sum_list (map snd data)), Blank]
                @ chart
                @ (if int (length data) > sample_size
                   then [Separator,
                         Other_summary (length (slice_from sample_size data))
                           (sum_list (map snd (slice_from sample_size data)))]
                   else [])
                @ [Blank, Blank])))"

definition section_fav_emoji ::
  "(pystr \<Rightarrow> pystr) \<Rightarrow> int \<Rightarrow> ((pystr \<times> pystr) \<times> int) list \<Rightarrow> py_error + line list" where
  "section_fav_emoji demojize sample_size table =
     (let data = map (\<lambda>x. (fst (fst x) @ str_of '' | '' @ snd (fst x) @ str_of '' | (''
                            @ demojize (snd (fst x)) @ str_of '')'', snd x)) table
      in and_then (printBarChart (slice_to sample_size data)) (\<lambda>chart.
           Inr ([Rule, Title ''Favorite Emoji by Member'', Rule, Blank]
                @ chart
                @ [Blank, Blank])))"

definition section_words :: "int \<Rightarrow> (pystr \<times> int) list \<Rightarrow> py_error + line list" where
  "section_words sample_size data =
     and_then (printBarChart (slice_to sample_size data)) (\<lambda>chart.
       Inr ([Rule, Title ''Used Word'', Rule,
             Stat ''Unique Word'' (int (length data)),
             Stat ''Total Count'' (sum_list (map snd data)), Blank]
            @ chart
            @ (if int (length data) > sample_size
               then [Separator,
                     Other_summary (length (slice_from sample_size data))
                       (sum_list (map snd (slice_from sample_size data)))]
               else [])
            @ [Blank, Blank]))"

definition section_fav_word ::
  "int \<Rightarrow> ((pystr \<times> pystr) \<times> int) list \<Rightarrow> py_error + line list" where
  "section_fav_word sample_size table =
     (let data = map (\<lambda>x. (fst (fst x) @ str_of '' | '' @ snd (fst x) @ str_of '' | '', snd x))
                   table
      in and_then (printBarChart (slice_to sample_size data)) (\<lambda>chart.
           Inr ([Rule, Title ''Favorite Word by Member'', Rule, Blank]
                @ chart
                @ [Blank, Blank])))"

section \<open>Notions of the specification\<close>

text \<open>
  \<open>first_pos data k\<close> is the position at which \<open>k\<close> first arrives in \<open>data\<close>, and
  \<open>rank_before data\<close> the order of a frequency table: count descending, ties by first
  arrival.
\<close>

definition first_pos :: "'k list \<Rightarrow> 'k \<Rightarrow> nat" where
  "first_pos data k = length (takeWhile (\<lambda>x. x \<noteq> k) data)"

definition rank_before :: "'k list \<Rightarrow> ('k \<times> int) \<Rightarrow> ('k \<times> int) \<Rightarrow> bool" where
  "rank_before data p q \<longleftrightarrow>
     snd p > snd q \<or> (snd p = snd q \<and> first_pos data (fst p) < first_pos data (fst q))"


text \<open>A ranked pair table on which the favourites are computed by hand.\<close>

definition ranked_pairs :: "((string \<times> string) \<times> int) list" where
  "ranked_pairs = [((''Al'', ''hello''), 3), ((''Bo'', ''hello''), 2), ((''Al'', ''world''), 2),
     ((''Bo'', ''ok''), 1)]"

text \<open>
  The word filter in the words of the specification: longer than one character, made of
  alphanumeric characters only, not made of numeric characters only, and its lower-cased
  form not a stop word.
\<close>

definition counted_word :: "unicode_db \<Rightarrow> pystr list \<Rightarrow> pystr \<Rightarrow> bool" where
  "counted_word U stop_words w \<longleftrightarrow>
     length w > 1 \<and>
     list_all (\<lambda>c. isalpha_cp U c \<or> isdecimal_cp U c \<or> isdigit_cp U c \<or> isnumeric_cp U c) w \<and>
     \<not> list_all (isnumeric_cp U) w \<and>
     lower U w \<notin> set stop_words"

text \<open>
  Two chat lines for the date filter: one without a timestamp, and one stamped in the last
  microsecond of the day that starts at 0.
\<close>

definition absent_timestamp_line :: chatline where
  "absent_timestamp_line = \<lparr>line_type = Chat, timestamp = None, sender = None,
     is_deleted_chat = False, words = [], emojis = [], domains = []\<rparr>"

definition last_microsecond_line :: chatline where
  "last_microsecond_line = \<lparr>line_type = Chat, timestamp = Some (86400 * 1000000 - 1),
     sender = None, is_deleted_chat = False, words = [], emojis = [], domains = []\<rparr>"

text \<open>Lines by their kind, and the summary line the specification expects after a chart.\<close>

definition is_other :: "line \<Rightarrow> bool" where
  "is_other l = (case l of Other_summary n s \<Rightarrow> True | _ \<Rightarrow> False)"

definition is_bar :: "line \<Rightarrow> bool" where
  "is_bar l = (case l of Bar label n v \<Rightarrow> True | _ \<Rightarrow> False)"

definition other_beyond :: "int \<Rightarrow> ('a \<times> int) list \<Rightarrow> line list" where
  "other_beyond n data =
     (if int (length data) > n
      then [Other_summary (length data - nat n) (sum_list (map snd (drop (nat n) data)))]
      else [])"

text \<open>Two small tables on which the renderer is run by hand.\<close>

definition two_bars :: "(pystr \<times> int) list" where
  "two_bars = [(str_of ''A'', 10), (str_of ''B'', 5)]"

definition two_favourites :: "((pystr \<times> pystr) \<times> int) list" where
  "two_favourites = [((str_of ''Al'', str_of ''hi''), 2), ((str_of ''Bo'', str_of ''yo''), 1)]"

text \<open>
  The heat map in the words of the specification: \<open>max_count\<close> is the largest count
  present (0 for the empty mapping), \<open>spec_level\<close> the bucket of a count by strict
  comparison with three quarters, one half and one quarter of it, highest bucket first, and
  \<open>spec_tick\<close> the glyph of a cell, the no-data glyph for a key that is absent. The
  arithmetic is exact.
\<close>

definition max_count :: "('k \<times> int) list \<Rightarrow> int" where
  "max_count data = (if data = [] then 0 else Max (set (map snd data)))"

definition spec_level :: "rat \<Rightarrow> int \<Rightarrow> tick" where
  "spec_level maxVal c =
     (if of_int c > 3 / 4 * maxVal then Level4
      else if of_int c > 1 / 2 * maxVal then Level3
      else if of_int c > 1 / 4 * maxVal then Level2
      else Level1)"

definition spec_tick :: "('k \<times> int) list \<Rightarrow> 'k \<Rightarrow> tick" where
  "spec_tick data dict_key =
     (case map_of data dict_key of
        None \<Rightarrow> No_data
      | Some c \<Rightarrow> spec_level (of_int (max_count data)) c)"

text \<open>An activity mapping with three cells.\<close>

definition heat :: "(pystr \<times> pystr, int) dict" where
  "heat = [((str_of ''Monday'', str_of ''09''), 10), ((str_of ''Tuesday'', str_of ''10''), 5),
           ((str_of ''Sunday'', str_of ''10''), 8)]"

text \<open>A small chat counter, as the loop leaves it, for running the reductions by hand.\<close>

definition small_chat :: chat_counter where
  "small_chat = chat_counter_init\<lparr>
     senders := [str_of ''Al'', str_of ''Bo'', str_of ''Al''],
     all_words := [str_of ''Hi'', str_of ''hi'', str_of ''yo''],
     all_domains := [str_of ''a.org''],
     all_emojis := [],
     fav_emoji := [],
     fav_word := [(str_of ''Al'', str_of ''Hi''), (str_of ''Al'', str_of ''hi''),
                  (str_of ''Bo'', str_of ''yo''), (str_of ''Al'', str_of ''Hi'')]\<rparr>"

section \<open>The frequency table\<close>

lemma Counter_snoc:
  "Counter (xs @ [x]) = dict_set (Counter xs) x (dict_get (Counter xs) x 0 + 1)"
  by (simp add: Counter_def)

lemma Counter_keys_set: "set (map fst (Counter xs)) = set xs"
  by (induction xs rule: rev_induct)
     (auto simp: Counter_snoc dict_set_def update_keys Counter_def)

lemma Counter_keys_image: "fst ` set (Counter xs) = set xs"
  using Counter_keys_set [of xs] by simp

lemma Counter_keys_distinct: "distinct (map fst (Counter xs))"
  by (induction xs rule: rev_induct)
     (auto simp: Counter_snoc dict_set_def Counter_def intro: distinct_update)

lemma first_pos_snoc_old: "k \<in> set xs \<Longrightarrow> first_pos (xs @ [x]) k = first_pos xs k"
  by (simp add: first_pos_def takeWhile_append1)

lemma first_pos_snoc_new: "k \<notin> set xs \<Longrightarrow> first_pos (xs @ [k]) k = length xs"
proof -
  assume "k \<notin> set xs"
  then have "takeWhile (\<lambda>x. x \<noteq> k) (xs @ [k]) = xs @ takeWhile (\<lambda>x. x \<noteq> k) [k]"
    by (intro takeWhile_append2) auto
  then show ?thesis by (simp add: first_pos_def)
qed

lemma first_pos_less: "k \<in> set xs \<Longrightarrow> first_pos xs k < length xs"
  unfolding first_pos_def by (induction xs) auto

lemma Counter_keys_arrival:
  "sorted_wrt (\<lambda>a b. first_pos xs a < first_pos xs b) (map fst (Counter xs))"
proof (induction xs rule: rev_induct)
  case Nil
  show ?case by (simp add: Counter_def)
next
  case (snoc x xs)
  let ?ks = "map fst (Counter xs)"
  have old: "sorted_wrt (\<lambda>a b. first_pos (xs @ [x]) a < first_pos (xs @ [x]) b) ?ks"
    using snoc.IH
    by (rule sorted_wrt_mono_rel [rotated])
       (simp add: Counter_keys_image first_pos_snoc_old)
  show ?case
  proof (cases "x \<in> set xs")
    case True
    then show ?thesis
      using old by (simp add: Counter_snoc dict_set_def update_keys Counter_keys_image)
  next
    case False
    have "\<forall>a\<in>set ?ks. first_pos (xs @ [x]) a < first_pos (xs @ [x]) x"
      using False
      by (auto simp: Counter_keys_image first_pos_snoc_old first_pos_snoc_new first_pos_less)
    with old False show ?thesis
      by (simp add: Counter_snoc dict_set_def update_keys Counter_keys_image sorted_wrt_append)
  qed
qed

lemma map_of_Counter:
  "map_of (Counter xs) k = (if k \<in> set xs then Some (int (count_list xs k)) else None)"
proof (induction xs rule: rev_induct)
  case Nil
  show ?case by (simp add: Counter_def)
next
  case (snoc x xs)
  then show ?case
    by (auto simp: Counter_snoc dict_set_def dict_get_def update_conv' count_list_0_iff)
qed

lemma dict_snoc: "dict (ps @ [(k, v)]) = dict_set (dict ps) k v"
  by (simp add: dict_def)

lemma update_fresh: "k \<notin> fst ` set al \<Longrightarrow> AList.update k v al = al @ [(k, v)]"
  by (induction al) auto

lemma dict_distinct_id: "distinct (map fst ps) \<Longrightarrow> dict ps = ps"
proof (induction ps rule: rev_induct)
  case Nil
  show ?case by (simp add: dict_def)
next
  case (snoc p ps)
  then show ?case
    by (cases p) (simp add: dict_snoc dict_set_def update_fresh)
qed

lemma dict_zip_Counter:
  "dict_items (dict (zip (dict_keys (Counter xs)) (dict_values (Counter xs)))) = Counter xs"
  by (simp add: dict_items_def dict_keys_def dict_values_def zip_map_fst_snd
      dict_distinct_id Counter_keys_distinct)

lemma reduce_and_sort_eq: "reduce_and_sort xs = sort_key (\<lambda>p. - snd p) (Counter xs)"
  by (simp add: reduce_and_sort_def dict_zip_Counter sorted_py_def)

lemma insort_key_tiebreak:
  assumes "sorted_wrt (\<lambda>p q. f p < f q \<or> (f p = f q \<and> T p q)) ys"
    and "\<forall>y\<in>set ys. T x y"
  shows "sorted_wrt (\<lambda>p q. f p < f q \<or> (f p = f q \<and> T p q)) (insort_key f x ys)"
  using assms
proof (induction ys)
  case Nil
  show ?case by simp
next
  case (Cons y ys)
  show ?case
  proof (cases "f x \<le> f y")
    case True
    have "\<forall>z\<in>set ys. f x < f z \<or> (f x = f z \<and> T x z)"
      using Cons.prems True by force
    with Cons.prems True show ?thesis by auto
  next
    case False
    with Cons show ?thesis by (auto simp: set_insort_key)
  qed
qed

lemma sort_key_tiebreak:
  "sorted_wrt T xs \<Longrightarrow>
   sorted_wrt (\<lambda>p q. f p < f q \<or> (f p = f q \<and> T p q)) (sort_key f xs)"
proof (induction xs)
  case Nil
  show ?case by simp
next
  case (Cons x xs)
  then show ?case
    by (auto intro!: insort_key_tiebreak)
qed

lemma Counter_items_arrival:
  "sorted_wrt (\<lambda>p q. first_pos xs (fst p) < first_pos xs (fst q)) (Counter xs)"
  using Counter_keys_arrival [of xs] by (simp add: sorted_wrt_map)

lemma reduce_and_sort_ranked: "sorted_wrt (rank_before xs) (reduce_and_sort xs)"
proof -
  have "sorted_wrt (\<lambda>p q. - snd p < - snd q \<or>
          (- snd p = - snd q \<and> first_pos xs (fst p) < first_pos xs (fst q)))
        (sort_key (\<lambda>p. - snd p) (Counter xs))"
    by (rule sort_key_tiebreak [OF Counter_items_arrival])
  then show ?thesis
    by (simp add: reduce_and_sort_eq rank_before_def [abs_def])
qed

lemma reduce_and_sort_set: "set (reduce_and_sort xs) = set (Counter xs)"
  by (simp add: reduce_and_sort_eq)

lemma Counter_entry:
  "(k, c) \<in> set (Counter xs) \<longleftrightarrow> k \<in> set xs \<and> c = int (count_list xs k)"
proof -
  have "(k, c) \<in> set (Counter xs) \<longleftrightarrow> map_of (Counter xs) k = Some c"
    using Counter_keys_distinct [of xs] by simp
  then show ?thesis by (auto simp: map_of_Counter)
qed

lemma sum_insort_key:
  "sum_list (map g (insort_key f x xs)) = (g x :: int) + sum_list (map g xs)"
  by (induction xs) auto

lemma sum_sort_key: "sum_list (map g (sort_key f xs)) = sum_list (map (g::'a \<Rightarrow> int) xs)"
  by (induction xs) (auto simp: sum_insort_key)

lemma sum_update_incr:
  "sum_list (map snd (AList.update k (dict_get d k 0 + 1) d)) = sum_list (map snd d) + (1::int)"
  by (induction d) (auto simp: dict_get_def)

lemma sum_Counter: "sum_list (map snd (Counter xs)) = int (length xs)"
  by (induction xs rule: rev_induct)
     (auto simp: Counter_snoc dict_set_def sum_update_incr Counter_def)

lemma reduce_and_sort_keys_distinct: "distinct (map fst (reduce_and_sort xs))"
proof -
  have "distinct (map fst (sort_key (\<lambda>p. - snd p) (Counter xs)))"
  proof (rule card_distinct)
    have "card (set (map fst (sort_key (\<lambda>p. - snd p) (Counter xs)))) =
          card (set (map fst (Counter xs)))"
      by simp
    also have "\<dots> = length (map fst (Counter xs))"
      using Counter_keys_distinct [of xs] by (rule distinct_card)
    finally show "card (set (map fst (sort_key (\<lambda>p. - snd p) (Counter xs)))) =
          length (map fst (sort_key (\<lambda>p. - snd p) (Counter xs)))"
      by simp
  qed
  then show ?thesis by (simp add: reduce_and_sort_eq)
qed

lemma reduce_and_sort_entries:
  "set (reduce_and_sort xs) = {(k, int (count_list xs k)) | k. k \<in> set xs}"
  by (auto simp: reduce_and_sort_set Counter_entry)

lemma reduce_and_sort_descending:
  "sorted_wrt (\<lambda>p q. snd q \<le> snd p) (reduce_and_sort xs)"
  using reduce_and_sort_ranked [of xs]
  by (rule sorted_wrt_mono_rel [rotated]) (auto simp: rank_before_def)

text \<open>
  C1. The table returned by \<open>reduce_and_sort\<close> has one pair per distinct key of the
  input, carrying the number of its occurrences; the pairs are sorted by count descending,
  and pairs with equal counts stand in the order in which their keys first arrive in the
  input. For the input b, a, b, a the table is (b, 2), (a, 2).
\<close>

theorem reduce_and_sort_rank_order:
  "distinct (map fst (reduce_and_sort data)) \<and>
   set (reduce_and_sort data) = {(k, int (count_list data k)) | k. k \<in> set data} \<and>
   sorted_wrt (\<lambda>p q. snd q \<le> snd p) (reduce_and_sort data) \<and>
   sorted_wrt (rank_before data) (reduce_and_sort data) \<and>
   reduce_and_sort [''b'', ''a'', ''b'', ''a''] = [(''b'', 2), (''a'', 2)]"
proof -
  have "reduce_and_sort [''b'', ''a'', ''b'', ''a''] = [(''b'', 2), (''a'', 2)]"
    by code_simp
  then show ?thesis
    using reduce_and_sort_keys_distinct [of data] reduce_and_sort_entries [of data]
      reduce_and_sort_descending [of data] reduce_and_sort_ranked [of data]
    by blast
qed

text \<open>
  C2. The counts of the table returned by \<open>reduce_and_sort\<close> add up to the number of
  elements of the input.
\<close>

theorem reduce_and_sort_sum_counts:
  "sum_list (map snd (reduce_and_sort M)) = int (length M)"
  by (simp add: reduce_and_sort_eq sum_sort_key sum_Counter)

section \<open>The favourite of each first key\<close>

lemma fav_loop_acc: "fav_loop data exist arr = arr @ fav_loop data exist []"
proof (induction data arbitrary: exist arr)
  case Nil
  show ?case by simp
next
  case (Cons i data)
  show ?case
    using Cons.IH [of "exist @ [fst (fst i)]" "arr @ [i]"] Cons.IH [of "exist @ [fst (fst i)]" "[i]"]
      Cons.IH [of exist arr]
    by simp
qed

lemma fav_loop_Cons:
  "fav_loop (i # data) exist [] =
     (if snd i > 0 \<and> fst (fst i) \<notin> set exist
      then i # fav_loop data (exist @ [fst (fst i)]) []
      else fav_loop data exist [])"
  using fav_loop_acc [of data "exist @ [fst (fst i)]" "[i]"] by simp

lemma fav_loop_subseq: "subseq (fav_loop data exist []) data"
proof (induction data arbitrary: exist)
  case Nil
  show ?case by simp
next
  case (Cons i data)
  show ?case
    using Cons.IH [of exist] Cons.IH [of "exist @ [fst (fst i)]"]
    by (simp only: fav_loop_Cons split: if_split) auto
qed

lemma fav_loop_positive: "p \<in> set (fav_loop data exist []) \<Longrightarrow> snd p > 0"
proof (induction data arbitrary: exist)
  case Nil
  then show ?case by simp
next
  case (Cons i data)
  from Cons.prems show ?case
    by (auto simp only: fav_loop_Cons set_simps split: if_splits dest: Cons.IH)
qed

lemma fav_loop_fresh: "p \<in> set (fav_loop data exist []) \<Longrightarrow> fst (fst p) \<notin> set exist"
proof (induction data arbitrary: exist)
  case Nil
  then show ?case by simp
next
  case (Cons i data)
  show ?case
  proof (cases "snd i > 0 \<and> fst (fst i) \<notin> set exist")
    case True
    with Cons.prems have "p = i \<or> p \<in> set (fav_loop data (exist @ [fst (fst i)]) [])"
      by (simp only: fav_loop_Cons) auto
    then show ?thesis
    proof
      assume "p = i"
      with True show ?thesis by simp
    next
      assume "p \<in> set (fav_loop data (exist @ [fst (fst i)]) [])"
      then have "fst (fst p) \<notin> set (exist @ [fst (fst i)])"
        by (rule Cons.IH)
      then show ?thesis by simp
    qed
  next
    case False
    with Cons.prems have "p \<in> set (fav_loop data exist [])"
      by (simp only: fav_loop_Cons) auto
    then show ?thesis by (rule Cons.IH)
  qed
qed

lemma fav_loop_distinct: "distinct (map (\<lambda>p. fst (fst p)) (fav_loop data exist []))"
proof (induction data arbitrary: exist)
  case Nil
  show ?case by simp
next
  case (Cons i data)
  have "fst (fst i) \<notin> (\<lambda>p. fst (fst p)) ` set (fav_loop data (exist @ [fst (fst i)]) [])"
  proof
    assume "fst (fst i) \<in> (\<lambda>p. fst (fst p)) ` set (fav_loop data (exist @ [fst (fst i)]) [])"
    then obtain p where p: "p \<in> set (fav_loop data (exist @ [fst (fst i)]) [])"
      and k: "fst (fst p) = fst (fst i)"
      by force
    from fav_loop_fresh [OF p] k show False by simp
  qed
  then have "distinct (map (\<lambda>p. fst (fst p)) (i # fav_loop data (exist @ [fst (fst i)]) []))"
    using Cons.IH [of "exist @ [fst (fst i)]"] by simp
  then show ?case
    using Cons.IH [of exist]
    by (simp only: fav_loop_Cons split: if_split) simp
qed

lemma fav_loop_per_key:
  "filter (\<lambda>p. fst (fst p) = k) (fav_loop data exist []) =
     (if k \<in> set exist then []
      else case find (\<lambda>p. fst (fst p) = k \<and> snd p > 0) data of None \<Rightarrow> [] | Some p \<Rightarrow> [p])"
proof (induction data arbitrary: exist)
  case Nil
  show ?case by simp
next
  case (Cons i data)
  show ?case
  proof (cases "snd i > 0 \<and> fst (fst i) \<notin> set exist")
    case True
    then show ?thesis
      using Cons.IH [of "exist @ [fst (fst i)]"]
      by (simp only: fav_loop_Cons) auto
  next
    case False
    then show ?thesis
      using Cons.IH [of exist]
      by (simp only: fav_loop_Cons) auto
  qed
qed

lemma find_positive_ranked:
  "sorted_wrt (\<lambda>p q. snd q \<le> snd p) data \<Longrightarrow>
   find (\<lambda>p. key p = k \<and> snd p > (0::int)) data =
     (case find (\<lambda>p. key p = k) data of
        None \<Rightarrow> None
      | Some p \<Rightarrow> if snd p > 0 then Some p else None)"
proof (induction data)
  case Nil
  show ?case by simp
next
  case (Cons i data)
  show ?case
  proof (cases "key i = k \<and> \<not> snd i > 0")
    case True
    then have "\<forall>q\<in>set data. \<not> snd q > 0"
      using Cons.prems by force
    then have "find (\<lambda>p. key p = k \<and> snd p > 0) data = None"
      by (auto simp: find_None_iff)
    with True show ?thesis by simp
  next
    case False
    then show ?thesis
      using Cons by auto
  qed
qed

text \<open>
  C5. The output of \<open>reduce_fav_item\<close> has at most one entry per first key, is a
  subsequence of its input in the input's order, and holds no entry with a count of 0 or
  less. On a ranked table (counts descending) the entry of a first key is the first pair of
  the table with that first key, emitted when its count is positive; every later pair with
  that first key is skipped.
\<close>

theorem reduce_fav_item_first_per_key:
  "distinct (map (\<lambda>p. fst (fst p)) (reduce_fav_item data)) \<and>
   subseq (reduce_fav_item data) data \<and>
   (\<forall>p\<in>set (reduce_fav_item data). snd p > 0) \<and>
   (sorted_wrt (\<lambda>p q. snd q \<le> snd p) data \<longrightarrow>
     (\<forall>k. filter (\<lambda>p. fst (fst p) = k) (reduce_fav_item data) =
       (case find (\<lambda>p. fst (fst p) = k) data of
          None \<Rightarrow> []
        | Some p \<Rightarrow> if snd p > 0 then [p] else [])))"
proof -
  have "filter (\<lambda>p. fst (fst p) = k) (reduce_fav_item data) =
       (case find (\<lambda>p. fst (fst p) = k) data of
          None \<Rightarrow> []
        | Some p \<Rightarrow> if snd p > 0 then [p] else [])"
    if "sorted_wrt (\<lambda>p q. snd q \<le> snd p) data" for k
    using find_positive_ranked [OF that, of "\<lambda>p. fst (fst p)" k]
    by (simp add: reduce_fav_item_def fav_loop_per_key split: option.splits)
  then show ?thesis
    using fav_loop_distinct [of data "[]"] fav_loop_subseq [of data "[]"]
      fav_loop_positive [of _ data "[]"]
    by (auto simp: reduce_fav_item_def)
qed

theorem reduce_fav_item_first_per_key_witness:
  "sorted_wrt (\<lambda>p q. snd q \<le> snd p) ranked_pairs \<and>
   reduce_fav_item ranked_pairs = [((''Al'', ''hello''), 3), ((''Bo'', ''hello''), 2)] \<and>
   filter (\<lambda>p. fst (fst p) = ''Bo'') (reduce_fav_item ranked_pairs) = [((''Bo'', ''hello''), 2)]"
proof -
  have s: "sorted_wrt (\<lambda>p q. snd q \<le> snd p) ranked_pairs"
    by (simp add: ranked_pairs_def)
  have r: "reduce_fav_item ranked_pairs = [((''Al'', ''hello''), 3), ((''Bo'', ''hello''), 2)]"
    by (simp add: ranked_pairs_def reduce_fav_item_def)
  have f: "find (\<lambda>p. fst (fst p) = ''Bo'') ranked_pairs = Some ((''Bo'', ''hello''), 2)"
    by (simp add: ranked_pairs_def)
  from reduce_fav_item_first_per_key [of ranked_pairs] s
  have "filter (\<lambda>p. fst (fst p) = ''Bo'') (reduce_fav_item ranked_pairs) =
       (case find (\<lambda>p. fst (fst p) = ''Bo'') ranked_pairs of
          None \<Rightarrow> []
        | Some p \<Rightarrow> if snd p > 0 then [p] else [])"
    by blast
  with s r f show ?thesis by simp
qed

section \<open>The word filter\<close>

lemma filter_single_word_counted: "filter_single_word U stop_words w = counted_word U stop_words w"
  by (cases w) (auto simp: filter_single_word_def counted_word_def isalnum_def isnumeric_def)

lemma reduce_and_filter_words_eq:
  "reduce_and_filter_words U stop_words ws = map (lower U) (filter (counted_word U stop_words) ws)"
proof -
  have "reduce_and_filter_words U stop_words ws =
        map (lower U) (filter (filter_single_word U stop_words) ws)"
    unfolding reduce_and_filter_words_def filter_single_word_def
    by (induction ws) auto
  then show ?thesis
    by (simp add: filter_single_word_counted [abs_def])
qed

lemma count_list_map_filter:
  "count_list (map f (filter P xs)) v = length (filter (\<lambda>x. P x \<and> f x = v) xs)"
  by (induction xs) auto

lemma words_count:
  "(v, c) \<in> set (reduce_and_sort (reduce_and_filter_words U stop_words ws)) \<longleftrightarrow>
     c = int (length (filter (\<lambda>w. counted_word U stop_words w \<and> lower U w = v) ws)) \<and> 0 < c"
proof -
  let ?keep = "filter (\<lambda>w. counted_word U stop_words w \<and> lower U w = v) ws"
  have "v \<in> set (map (lower U) (filter (counted_word U stop_words) ws)) \<longleftrightarrow> 0 < length ?keep"
    by (auto simp: length_greater_0_conv filter_empty_conv simp del: length_greater_0_conv)
  then show ?thesis
    by (auto simp: reduce_and_sort_entries reduce_and_filter_words_eq count_list_map_filter)
qed

text \<open>
  C6. \<open>reduce_and_filter_words\<close> keeps a token exactly when it is longer than one
  character, all its characters are alphanumeric, they are not all numeric, and its
  lower-cased form is not a stop word; what it keeps is the lower-cased form, so the word
  table counts under a lower-cased word every kept token with that lower-cased form. With
  the stop word the: hi and Hi are kept as hi; 123, a and The are dropped.
\<close>

theorem word_filter_counts_lowercase:
  "reduce_and_filter_words U stop_words ws = map (lower U) (filter (counted_word U stop_words) ws) \<and>
   ((v, c) \<in> set (words_table U stop_words (cc\<lparr>all_words := ws\<rparr>)) \<longleftrightarrow>
      c = int (length (filter (\<lambda>w. counted_word U stop_words w \<and> lower U w = v) ws)) \<and> 0 < c) \<and>
   reduce_and_filter_words ascii_db [str_of ''the'']
      [str_of ''hi'', str_of ''123'', str_of ''a'', str_of ''The'', str_of ''Hi''] =
      [str_of ''hi'', str_of ''hi'']"
proof -
  have "reduce_and_filter_words ascii_db [str_of ''the'']
      [str_of ''hi'', str_of ''123'', str_of ''a'', str_of ''The'', str_of ''Hi''] =
      [str_of ''hi'', str_of ''hi'']"
    by code_simp
  then show ?thesis
    using reduce_and_filter_words_eq [of U stop_words ws] words_count [of v c U stop_words ws]
    by (simp add: words_table_def)
qed

lemma count_list_filter:
  "count_list (filter P xs) x = (if P x then count_list xs x else 0)"
  by (induction xs) auto

lemma fav_word_ranked_eq:
  "fav_word_ranked U stop_words cc =
     reduce_and_sort (filter (\<lambda>x. filter_single_word U stop_words (snd x)) (fav_word cc))"
proof -
  have c: "concat (map (\<lambda>x. if P x then [x] else []) xs) = filter P xs"
    for P and xs :: "'a list"
    by (induction xs) auto
  show ?thesis
    unfolding fav_word_ranked_def
    by (simp only: c [of "\<lambda>x. filter_single_word U stop_words (snd x)" "fav_word cc"])
qed

lemma fav_word_ranked_entries:
  "set (fav_word_ranked U stop_words cc) =
     {(x, int (count_list (fav_word cc) x)) | x.
        x \<in> set (fav_word cc) \<and> filter_single_word U stop_words (snd x)}"
  by (auto simp: fav_word_ranked_eq reduce_and_sort_entries count_list_filter)

lemma words_table_entries:
  "set (words_table U stop_words cc) =
     {(lower U w, int (length (filter (\<lambda>w'. filter_single_word U stop_words w' \<and>
                                           lower U w' = lower U w) (all_words cc)))) | w.
        w \<in> set (all_words cc) \<and> filter_single_word U stop_words w}"
  by (auto simp: words_table_def reduce_and_sort_entries reduce_and_filter_words_eq
      count_list_map_filter filter_single_word_counted)

text \<open>
  C10. The favourite-word reduction counts the (sender, word) pairs on the word as it
  arrives: the word is lower-cased only inside the filter. Its ranked table has one entry
  per filtered pair, carrying the number of occurrences of that very pair in the pair list,
  in rank order; two pairs that differ only in the case of the word are two keys with two
  counts. The word table instead has one entry per lower-cased form, carrying the number of
  kept words with that lower-cased form. For the pairs (Al, Hi), (Al, hi), (Bo, yo),
  (Al, Hi) the ranked table is ((Al, Hi), 2), ((Al, hi), 1), ((Bo, yo), 1), whereas the
  words Hi, hi, yo give (hi, 2), (yo, 1).
\<close>

theorem fav_word_keeps_case:
  "fst ` set (fav_word_ranked U stop_words cc) =
     {x \<in> set (fav_word cc). filter_single_word U stop_words (snd x)} \<and>
   fst ` set (words_table U stop_words cc) =
     lower U ` {w \<in> set (all_words cc). filter_single_word U stop_words w} \<and>
   fav_word_ranked ascii_db []
     (chat_counter_init\<lparr>fav_word := [(str_of ''Al'', str_of ''Hi''), (str_of ''Al'', str_of ''hi'')]\<rparr>) =
     [((str_of ''Al'', str_of ''Hi''), 1), ((str_of ''Al'', str_of ''hi''), 1)] \<and>
   words_table ascii_db [] (chat_counter_init\<lparr>all_words := [str_of ''Hi'', str_of ''hi'']\<rparr>) =
     [(str_of ''hi'', 2)] \<and>
   set (fav_word_ranked U stop_words cc) =
     {(x, int (count_list (fav_word cc) x)) | x.
        x \<in> set (fav_word cc) \<and> filter_single_word U stop_words (snd x)} \<and>
   distinct (map fst (fav_word_ranked U stop_words cc)) \<and>
   sorted_wrt (rank_before (filter (\<lambda>x. filter_single_word U stop_words (snd x)) (fav_word cc)))
     (fav_word_ranked U stop_words cc) \<and>
   set (words_table U stop_words cc) =
     {(lower U w, int (length (filter (\<lambda>w'. filter_single_word U stop_words w' \<and>
                                           lower U w' = lower U w) (all_words cc)))) | w.
        w \<in> set (all_words cc) \<and> filter_single_word U stop_words w} \<and>
   fav_word_ranked ascii_db [] small_chat =
     [((str_of ''Al'', str_of ''Hi''), 2), ((str_of ''Al'', str_of ''hi''), 1),
      ((str_of ''Bo'', str_of ''yo''), 1)] \<and>
   fav_word_table ascii_db [] small_chat =
     [((str_of ''Al'', str_of ''Hi''), 2), ((str_of ''Bo'', str_of ''yo''), 1)] \<and>
   words_table ascii_db [] small_chat = [(str_of ''hi'', 2), (str_of ''yo'', 1)]"
proof -
  have a: "fst ` set (fav_word_ranked U stop_words cc) =
     {x \<in> set (fav_word cc). filter_single_word U stop_words (snd x)}"
    by (auto simp: fav_word_ranked_def reduce_and_sort_entries image_iff)
  have b: "fst ` set (words_table U stop_words cc) =
     lower U ` {w \<in> set (all_words cc). filter_single_word U stop_words w}"
    by (auto simp: words_table_def reduce_and_sort_entries reduce_and_filter_words_eq
        filter_single_word_counted image_iff)
  have c: "fav_word_ranked ascii_db []
     (chat_counter_init\<lparr>fav_word := [(str_of ''Al'', str_of ''Hi''), (str_of ''Al'', str_of ''hi'')]\<rparr>) =
     [((str_of ''Al'', str_of ''Hi''), 1), ((str_of ''Al'', str_of ''hi''), 1)]"
    by code_simp
  have d: "words_table ascii_db [] (chat_counter_init\<lparr>all_words := [str_of ''Hi'', str_of ''hi'']\<rparr>) =
     [(str_of ''hi'', 2)]"
    by code_simp
  have e: "distinct (map fst (fav_word_ranked U stop_words cc))"
    unfolding fav_word_ranked_def by (rule reduce_and_sort_keys_distinct)
  have f: "sorted_wrt
      (rank_before (filter (\<lambda>x. filter_single_word U stop_words (snd x)) (fav_word cc)))
      (fav_word_ranked U stop_words cc)"
    unfolding fav_word_ranked_eq by (rule reduce_and_sort_ranked)
  have g: "fav_word_ranked ascii_db [] small_chat =
     [((str_of ''Al'', str_of ''Hi''), 2), ((str_of ''Al'', str_of ''hi''), 1),
      ((str_of ''Bo'', str_of ''yo''), 1)]"
    by code_simp
  have h: "fav_word_table ascii_db [] small_chat =
     [((str_of ''Al'', str_of ''Hi''), 2), ((str_of ''Bo'', str_of ''yo''), 1)]"
    by code_simp
  have i: "words_table ascii_db [] small_chat = [(str_of ''hi'', 2), (str_of ''yo'', 1)]"
    by code_simp
  from a b c d e f g h i fav_word_ranked_entries [of U stop_words cc]
    words_table_entries [of U stop_words cc]
  show ?thesis by blast
qed

section \<open>The date filter\<close>

text \<open>
  A line with a timestamp \<open>t\<close> is counted exactly when \<open>t\<close> is not before the start
  date and is before the last microsecond of the end date.
\<close>

lemma date_filter_present:
  "date_filter start_date (map_option end_date_of endDate) (c\<lparr>timestamp := Some t\<rparr>) =
     Inr ((case start_date of None \<Rightarrow> True | Some s \<Rightarrow> s \<le> t) \<and>
          (case endDate of None \<Rightarrow> True | Some e \<Rightarrow> t < e + 86400 * 1000000 - 1))"
  by (auto simp: date_filter_def timestamp_lt_def timestamp_ge_def and_then_def end_date_of_def
      split: option.splits)

text \<open>
  C7. The claim is that a line passes when its timestamp is at or after the start date and
  before the end date plus one day, and that a line without a timestamp is never excluded
  and is still counted. The loop does otherwise at two inputs. With a start or an end date
  given, the comparison of an absent timestamp raises \<open>TypeError\<close>, so the run stops
  instead of counting the line; only with no date given is the line counted. And a line
  stamped in the last microsecond of the end date, which is before the end date plus one
  day, is not counted.
\<close>

theorem date_filter_absent_timestamp:
  "date_filter (Some start_date) end_date (c\<lparr>timestamp := None\<rparr>) = Inl TypeError \<and>
   date_filter None (Some end_date') (c\<lparr>timestamp := None\<rparr>) = Inl TypeError \<and>
   date_filter None None (c\<lparr>timestamp := None\<rparr>) = Inr True \<and>
   parse_and_count (Some 0) None [absent_timestamp_line] = Inl TypeError \<and>
   parse_and_count None (Some 0) [absent_timestamp_line] = Inl TypeError \<and>
   timestamp last_microsecond_line = Some (0 + 86400 * 1000000 - 1) \<and>
   parse_and_count None (Some 0) [last_microsecond_line] = Inr chat_counter_init"
  by (simp add: date_filter_def timestamp_lt_def timestamp_ge_def and_then_def parse_and_count_def
      absent_timestamp_line_def last_microsecond_line_def end_date_of_def)

section \<open>Rounding to a double\<close>

text \<open>
  What the proofs below need of \<open>round_double\<close>: the exponent brackets the number,
  rounding stays within the bracket, never crosses a power of two, and leaves a number with
  a significand of at most 53 bits as it is.
\<close>

lemma round_half_even_between:
  assumes "of_int a \<le> q" and "q \<le> of_int b"
  shows "a \<le> round_half_even q \<and> round_half_even q \<le> b"
proof -
  have lo: "a \<le> \<lfloor>q\<rfloor>"
    using assms(1) by (simp add: le_floor_iff)
  have hi: "\<lfloor>q\<rfloor> \<le> b"
    using assms(2) floor_mono [of q "of_int b"] by simp
  have "\<lfloor>q\<rfloor> + 1 \<le> b" if "q - of_int \<lfloor>q\<rfloor> \<noteq> 0"
  proof -
    from that have "q \<noteq> of_int b"
      by auto
    with assms(2) have "q < of_int b" by simp
    then have "\<lfloor>q\<rfloor> < b" by (simp add: floor_less_iff)
    then show ?thesis by simp
  qed
  with lo hi show ?thesis
    by (auto simp: round_half_even_def Let_def)
qed

lemma round_half_even_of_int: "round_half_even (of_int n) = n"
  by (simp add: round_half_even_def)

lemma exponent_bounds:
  assumes "x \<noteq> 0"
  shows "2 powi (exponent x) \<le> \<bar>x\<bar> \<and> \<bar>x\<bar> < 2 powi (exponent x + 1)"
proof (cases "1 \<le> \<bar>x\<bar>")
  case True
  define n where "n = \<lfloor>\<bar>x\<bar>\<rfloor>"
  have n: "0 < n" using True by (simp add: n_def)
  have b: "1 \<le> bitlen n"
    using n bitlen_nonneg [of n] bitlen_eq_zero_iff [of n] by linarith
  from bitlen_bounds [OF n]
  have lo: "(2::int) ^ nat (bitlen n - 1) \<le> n" and hi: "n < 2 ^ nat (bitlen n)"
    by simp_all
  have e: "exponent x = bitlen n - 1"
    using True by (simp add: exponent_def n_def)
  have "(of_int ((2::int) ^ nat (bitlen n - 1)) :: rat) \<le> of_int n"
    using lo by (simp only: of_int_le_iff)
  also have "\<dots> \<le> \<bar>x\<bar>" by (simp add: n_def)
  finally have 1: "2 powi (exponent x) \<le> \<bar>x\<bar>"
    using b by (simp add: e power_int_def)
  have "n + 1 \<le> 2 ^ nat (bitlen n)" using hi by simp
  then have "(of_int (n + 1) :: rat) \<le> of_int (2 ^ nat (bitlen n))"
    by (simp only: of_int_le_iff)
  moreover have "\<bar>x\<bar> < of_int (n + 1)"
    unfolding n_def by linarith
  ultimately have 2: "\<bar>x\<bar> < 2 powi (exponent x + 1)"
    using b by (simp add: e power_int_def)
  from 1 2 show ?thesis ..
next
  case False
  define y where "y = 1 / \<bar>x\<bar>"
  have x: "0 < \<bar>x\<bar>" "\<bar>x\<bar> < 1" using assms False by simp_all
  have y: "1 < y" using x by (simp add: y_def)
  define m where "m = \<lceil>y\<rceil> - 1"
  have m: "0 < m" using y unfolding m_def by linarith
  have my: "of_int m < y" "y \<le> of_int (m + 1)"
    unfolding m_def by linarith+
  have b: "1 \<le> bitlen m"
    using m bitlen_nonneg [of m] bitlen_eq_zero_iff [of m] by linarith
  from bitlen_bounds [OF m]
  have lo: "(2::int) ^ nat (bitlen m - 1) \<le> m" and hi: "m < 2 ^ nat (bitlen m)"
    by simp_all
  have e: "exponent x = - bitlen m"
    using False by (simp add: exponent_def m_def y_def)
  have "m + 1 \<le> 2 ^ nat (bitlen m)" using hi by simp
  then have "(of_int (m + 1) :: rat) \<le> of_int (2 ^ nat (bitlen m))"
    by (simp only: of_int_le_iff)
  with my(2) have "y \<le> 2 ^ nat (bitlen m)" by simp
  then have "1 \<le> \<bar>x\<bar> * 2 ^ nat (bitlen m)"
    using x(1) by (simp add: y_def field_simps)
  then have 1: "2 powi (exponent x) \<le> \<bar>x\<bar>"
    using b by (simp add: e power_int_def field_simps)
  have "(of_int ((2::int) ^ nat (bitlen m - 1)) :: rat) \<le> of_int m"
    using lo by (simp only: of_int_le_iff)
  then have "(2::rat) ^ nat (bitlen m - 1) \<le> of_int m"
    by simp
  with my(1) have "2 ^ nat (bitlen m - 1) < y" by linarith
  then have "\<bar>x\<bar> * 2 ^ nat (bitlen m - 1) < 1"
    using x(1) by (simp add: y_def field_simps)
  then have "\<bar>x\<bar> < 1 / 2 ^ nat (bitlen m - 1)"
    by (simp add: pos_less_divide_eq)
  moreover have "exponent x + 1 = - int (nat (bitlen m - 1))"
    using b by (simp add: e)
  then have "(2::rat) powi (exponent x + 1) = 1 / 2 ^ nat (bitlen m - 1)"
    by (simp only: power_int_minus_divide power_int_of_nat)
  ultimately have 2: "\<bar>x\<bar> < 2 powi (exponent x + 1)"
    by simp
  from 1 2 show ?thesis ..
qed


lemma pow2_split: "(2::rat) powi (e - 52) * 2 ^ 52 = 2 powi e"
  and pow2_split': "(2::rat) powi (e - 52) * 2 ^ 53 = 2 powi (e + 1)"
proof -
  have a: "(2::rat) powi 52 = 2 ^ 52" "(2::rat) powi 53 = 2 ^ 53"
    by (simp_all only: power_int_numeral)
  have "(2::rat) powi (e - 52) * 2 powi 52 = 2 powi (e - 52 + 52)"
    by (subst power_int_add) simp_all
  then show "(2::rat) powi (e - 52) * 2 ^ 52 = 2 powi e"
    by (simp only: a diff_add_cancel)
  have "(2::rat) powi (e - 52) * 2 powi 53 = 2 powi (e - 52 + 53)"
    by (subst power_int_add) simp_all
  moreover have "e - 52 + 53 = e + 1" by simp
  ultimately show "(2::rat) powi (e - 52) * 2 ^ 53 = 2 powi (e + 1)"
    by (simp only: a)
qed

lemma pow2_less_cancel: "(2::rat) powi a < 2 powi b \<Longrightarrow> a < b"
proof (rule ccontr)
  assume "(2::rat) powi a < 2 powi b" and "\<not> a < b"
  then have "(2::rat) powi b \<le> 2 powi a"
    by (intro power_int_increasing) simp_all
  with \<open>(2::rat) powi a < 2 powi b\<close> show False by simp
qed

lemma pow2_le_cancel: "(2::rat) powi a \<le> 2 powi b \<Longrightarrow> a \<le> b"
proof (rule ccontr)
  assume "(2::rat) powi a \<le> 2 powi b" and "\<not> a \<le> b"
  then have "(2::rat) powi b < 2 powi a"
    by (intro power_int_strict_increasing) simp_all
  with \<open>(2::rat) powi a \<le> 2 powi b\<close> show False by simp
qed

lemma round_double_bracket:
  assumes "x \<noteq> 0"
  shows "2 powi (exponent x) \<le> \<bar>round_double x\<bar> \<and>
         \<bar>round_double x\<bar> \<le> 2 powi (exponent x + 1)"
proof -
  define u :: rat where "u = 2 powi (exponent x - 52)"
  define n where "n = round_half_even (x / u)"
  have u: "0 < u" by (simp add: u_def)
  have r: "round_double x = of_int n * u"
    using assms by (simp add: round_double_def u_def n_def Let_def)
  from exponent_bounds [OF assms]
  have lo: "u * 2 ^ 52 \<le> \<bar>x\<bar>" and hi: "\<bar>x\<bar> < u * 2 ^ 53"
    unfolding u_def pow2_split pow2_split' by blast+
  have n: "2 ^ 52 \<le> \<bar>n\<bar> \<and> \<bar>n\<bar> \<le> 2 ^ 53"
  proof (cases "0 < x")
    case True
    have "of_int (2 ^ 52) \<le> x / u" "x / u \<le> of_int (2 ^ 53)"
      using lo hi True u by (simp_all add: field_simps)
    from round_half_even_between [OF this] show ?thesis
      by (simp add: n_def)
  next
    case False
    have "of_int (- (2 ^ 53)) \<le> x / u" "x / u \<le> of_int (- (2 ^ 52))"
      using lo hi False u assms by (simp_all add: field_simps)
    from round_half_even_between [OF this] show ?thesis
      by (simp add: n_def)
  qed
  have a: "\<bar>round_double x\<bar> = of_int \<bar>n\<bar> * u"
    using u by (simp add: r abs_mult)
  have "(of_int (2 ^ 52) :: rat) \<le> of_int \<bar>n\<bar>" "(of_int \<bar>n\<bar> :: rat) \<le> of_int (2 ^ 53)"
    using n by (simp_all only: of_int_le_iff)
  then have c: "(2::rat) ^ 52 \<le> of_int \<bar>n\<bar>" "(of_int \<bar>n\<bar> :: rat) \<le> 2 ^ 53"
    by simp_all
  have "2 powi (exponent x) = u * 2 ^ 52"
    unfolding u_def by (rule pow2_split [symmetric])
  also have "\<dots> = 2 ^ 52 * u"
    by (rule mult.commute)
  also have "\<dots> \<le> of_int \<bar>n\<bar> * u"
    using c(1) u by (intro mult_right_mono) simp_all
  finally have 1: "2 powi (exponent x) \<le> \<bar>round_double x\<bar>"
    by (simp only: a)
  have "of_int \<bar>n\<bar> * u \<le> 2 ^ 53 * u"
    using c(2) u by (intro mult_right_mono) simp_all
  also have "\<dots> = u * 2 ^ 53"
    by (rule mult.commute)
  also have "\<dots> = 2 powi (exponent x + 1)"
    unfolding u_def by (rule pow2_split')
  finally have 2: "\<bar>round_double x\<bar> \<le> 2 powi (exponent x + 1)"
    by (simp only: a)
  from 1 2 show ?thesis ..
qed

lemma round_double_ge_pow2:
  assumes "2 powi k \<le> \<bar>x\<bar>"
  shows "2 powi k \<le> \<bar>round_double x\<bar>"
proof -
  have x: "x \<noteq> 0"
  proof
    assume "x = 0"
    with assms have "(2::rat) powi k \<le> 0" by simp
    moreover have "(0::rat) < 2 powi k" by simp
    ultimately show False by simp
  qed
  from exponent_bounds [OF x] assms have "(2::rat) powi k < 2 powi (exponent x + 1)"
    by simp
  then have "k < exponent x + 1"
    by (rule pow2_less_cancel)
  then have "(2::rat) powi k \<le> 2 powi (exponent x)"
    by (intro power_int_increasing) simp_all
  with round_double_bracket [OF x] show ?thesis by simp
qed

lemma round_double_exact:
  assumes "\<bar>k\<bar> < 2 ^ 53"
  shows "round_double (of_int k * 2 powi j) = of_int k * 2 powi j"
proof (cases "k = 0")
  case True
  then show ?thesis by (simp add: round_double_def)
next
  case False
  define x :: rat where "x = of_int k * 2 powi j"
  have x: "x \<noteq> 0" using False by (simp add: x_def)
  have "\<bar>x\<bar> = of_int \<bar>k\<bar> * 2 powi j"
    by (simp add: x_def abs_mult)
  moreover have "(of_int \<bar>k\<bar> :: rat) < of_int (2 ^ 53)"
    using assms by (simp only: of_int_less_iff)
  ultimately have "\<bar>x\<bar> < 2 ^ 53 * 2 powi j"
    by simp
  also have "\<dots> = 2 powi (53 + j)"
    by (simp add: power_int_add)
  finally have "(2::rat) powi (exponent x) < 2 powi (53 + j)"
    using exponent_bounds [OF x] by simp
  then have "exponent x < 53 + j"
    by (rule pow2_less_cancel)
  then have d: "0 \<le> j - (exponent x - 52)" by simp
  define u :: rat where "u = 2 powi (exponent x - 52)"
  define N where "N = nat (j - (exponent x - 52))"
  have u: "u \<noteq> 0" by (simp add: u_def)
  have "(2::rat) powi j = 2 powi (j - (exponent x - 52) + (exponent x - 52))"
    by simp
  also have "\<dots> = 2 powi (j - (exponent x - 52)) * u"
    unfolding u_def by (subst power_int_add) simp_all
  also have "2 powi (j - (exponent x - 52)) = (2::rat) ^ N"
    using d by (simp add: power_int_def N_def)
  finally have pj: "(2::rat) powi j = 2 ^ N * u" .
  have "x = of_int k * (2 ^ N * u)"
    by (simp only: x_def pj)
  then have "x / u = of_int (k * 2 ^ N)"
    using u by simp
  then have "of_int (round_half_even (x / u)) * u = x"
    using u by (simp only: round_half_even_of_int) (simp add: field_simps)
  then have "round_double x = x"
    using x by (simp add: round_double_def u_def Let_def)
  then show ?thesis
    by (simp only: x_def)
qed

lemma round_double_le_pow2:
  assumes "\<bar>x\<bar> \<le> 2 powi m"
  shows "\<bar>round_double x\<bar> \<le> 2 powi m"
proof (cases "x = 0")
  case True
  then show ?thesis by (simp add: round_double_def)
next
  case False
  from exponent_bounds [OF False] assms have "(2::rat) powi (exponent x) \<le> 2 powi m"
    by simp
  then have le: "exponent x \<le> m"
    by (rule pow2_le_cancel)
  show ?thesis
  proof (cases "exponent x = m")
    case True
    with exponent_bounds [OF False] assms have "\<bar>x\<bar> = 2 powi m" by simp
    then have "x = of_int 1 * 2 powi m \<or> x = of_int (- 1) * 2 powi m"
      by (cases "0 \<le> x") simp_all
    then have "round_double x = x"
      using round_double_exact [of 1 m] round_double_exact [of "- 1" m] by auto
    with assms show ?thesis by simp
  next
    case False
    with le have "exponent x + 1 \<le> m" by simp
    then have "(2::rat) powi (exponent x + 1) \<le> 2 powi m"
      by (intro power_int_increasing) simp_all
    with round_double_bracket [OF \<open>x \<noteq> 0\<close>] show ?thesis by simp
  qed
qed

text \<open>
  Reaching \<open>2 ^ 1024\<close> is having an exponent of at least 1024; evaluation uses this form,
  which needs no power.
\<close>

lemma overflows_exponent [code]: "overflows r \<longleftrightarrow> r \<noteq> 0 \<and> 1024 \<le> exponent r"
proof (cases "r = 0")
  case True
  then show ?thesis by (simp add: overflows_def)
next
  case False
  have p: "(2::rat) powi 1024 = 2 ^ 1024"
    by (simp only: power_int_numeral)
  show ?thesis
  proof
    assume "overflows r"
    then have "(2::rat) powi 1024 \<le> \<bar>r\<bar>"
      unfolding overflows_def by (simp only: p)
    with exponent_bounds [OF False] have "(2::rat) powi 1024 < 2 powi (exponent r + 1)"
      by simp
    then have "1024 < exponent r + 1"
      by (rule pow2_less_cancel)
    with False show "r \<noteq> 0 \<and> 1024 \<le> exponent r" by simp
  next
    assume "r \<noteq> 0 \<and> 1024 \<le> exponent r"
    then have "(2::rat) powi 1024 \<le> 2 powi (exponent r)"
      by (intro power_int_increasing) simp_all
    with exponent_bounds [OF False] have "(2::rat) powi 1024 \<le> \<bar>r\<bar>"
      by simp
    then show "overflows r"
      unfolding overflows_def by (simp only: p)
  qed
qed

section \<open>The bar chart\<close>

text \<open>
  With counts below \<open>2 ^ 1000\<close> in magnitude no conversion and no quotient of \<open>printBar\<close>
  leaves the range of a double, so the only exception left is the division by a zero scale.
\<close>

lemma not_overflows:
  assumes "\<bar>r\<bar> \<le> 2 powi m" and "m < 1024"
  shows "\<not> overflows r"
proof -
  have "(2::rat) powi m < 2 powi 1024"
    using assms(2) by (intro power_int_strict_increasing) simp_all
  also have "(2::rat) powi 1024 = 2 ^ 1024"
    by (simp only: power_int_numeral)
  finally have "\<bar>r\<bar> < 2 ^ 1024"
    using assms(1) by (rule order.strict_trans1 [rotated])
  then show ?thesis
    unfolding overflows_def by (simp only: not_le)
qed

lemma int_magnitude:
  assumes "\<bar>n\<bar> < 2 ^ 1000"
  shows "\<bar>of_int n :: rat\<bar> \<le> 2 powi 1000"
proof -
  have "(of_int \<bar>n\<bar> :: rat) \<le> of_int (2 ^ 1000)"
    using assms by (simp only: of_int_le_iff)
  also have "(of_int (2 ^ 1000) :: rat) = 2 powi 1000"
    by (simp only: power_int_numeral of_int_power of_int_numeral)
  finally show ?thesis by (simp only: of_int_abs)
qed

lemma float_of_int_ok:
  assumes "\<bar>n\<bar> < 2 ^ 1000"
  shows "float_of_int n = Inr (round_double (of_int n))"
    and "\<bar>round_double (of_int n)\<bar> \<le> 2 powi 1000"
proof -
  show b: "\<bar>round_double (of_int n)\<bar> \<le> 2 powi 1000"
    using int_magnitude [OF assms] by (rule round_double_le_pow2)
  have "\<not> overflows (round_double (of_int n))"
    using b by (rule not_overflows) simp
  then show "float_of_int n = Inr (round_double (of_int n))"
    by (simp only: float_of_int_def Let_def if_False)
qed

lemma scale_ok:
  assumes "tot \<noteq> 0" and "\<bar>tot\<bar> < 2 ^ 1000"
  shows "int_truediv tot 50 = Inr (round_double (of_int tot / of_int 50))"
    and "2 powi (- 6) \<le> \<bar>round_double (of_int tot / of_int 50)\<bar>"
proof -
  let ?x = "of_int tot / of_int 50 :: rat"
  have "1 \<le> \<bar>tot\<bar>" using assms(1) by simp
  then have one: "(1::rat) \<le> \<bar>of_int tot\<bar>"
    by (simp only: of_int_abs [symmetric] of_int_1_le_iff)
  have ax: "\<bar>?x\<bar> = \<bar>of_int tot\<bar> / 50" by simp
  have "(2::rat) powi (- 6) = 1 / 64"
    by (simp add: power_int_minus_divide)
  also have "\<dots> \<le> \<bar>?x\<bar>"
    using one by (simp only: ax)
  finally have lo: "2 powi (- 6) \<le> \<bar>?x\<bar>" .
  then show "2 powi (- 6) \<le> \<bar>round_double ?x\<bar>"
    by (rule round_double_ge_pow2)
  have "\<bar>?x\<bar> \<le> \<bar>of_int tot\<bar>"
    by (simp only: ax)
  also have "\<dots> \<le> 2 powi 1000"
    using assms(2) by (rule int_magnitude)
  finally have "\<bar>round_double ?x\<bar> \<le> 2 powi 1000"
    by (rule round_double_le_pow2)
  then have "\<not> overflows (round_double ?x)"
    by (rule not_overflows) simp
  then show "int_truediv tot 50 = Inr (round_double ?x)"
    by (simp add: int_truediv_def Let_def)
qed

lemma quotient_ok:
  assumes "\<bar>x\<bar> \<le> 2 powi 1000" and "2 powi (- 6) \<le> \<bar>s\<bar>"
  shows "\<not> overflows (round_double (x / s))"
proof -
  have s: "0 < \<bar>s\<bar>"
    using assms(2) zero_less_power_int [of "2::rat" "- 6"] by linarith
  have "\<bar>x\<bar> * 2 powi (- 6) \<le> 2 powi 1000 * \<bar>s\<bar>"
    using assms by (intro mult_mono) simp_all
  then have "\<bar>x\<bar> / \<bar>s\<bar> \<le> 2 powi 1000 / 2 powi (- 6)"
    using s by (simp add: field_simps)
  also have "(2::rat) powi 1000 / 2 powi (- 6) = 2 powi (1000 - (- 6))"
    by (subst power_int_diff) simp_all
  finally have "\<bar>x / s\<bar> \<le> 2 powi 1006"
    by simp
  then have "\<bar>round_double (x / s)\<bar> \<le> 2 powi 1006"
    by (rule round_double_le_pow2)
  then show ?thesis
    by (rule not_overflows) simp
qed


lemma printBar_ok:
  assumes "tot \<noteq> 0" and "\<bar>tot\<bar> < 2 ^ 1000" and "\<bar>v\<bar> < 2 ^ 1000"
  shows "\<exists>n. printBar v tot label 50 = Inr [Bar label n v]"
proof -
  define scale where "scale = round_double (of_int tot / of_int 50)"
  define x where "x = round_double (of_int v)"
  note s = scale_ok [OF assms(1,2), folded scale_def]
  note f = float_of_int_ok [OF assms(3), folded x_def]
  have nz: "scale \<noteq> 0"
    using s(2) zero_less_power_int [of "2::rat" "- 6"] by auto
  have "\<not> overflows (round_double (x / scale))"
    using f(2) s(2) by (rule quotient_ok)
  then show ?thesis
    using nz by (simp add: printBar_def s(1) f(1) and_then_def int_float_truediv_def
        float_truediv_def int_of_float_def)
qed

lemma printBar_zero:
  assumes "\<bar>v\<bar> < 2 ^ 1000"
  shows "printBar v 0 label 50 = Inl ZeroDivisionError"
proof -
  have "\<not> overflows 0"
    by (simp add: overflows_def)
  then have "int_truediv 0 50 = Inr 0"
    by (simp add: int_truediv_def round_double_def)
  then show ?thesis
    by (simp add: printBar_def float_of_int_ok(1) [OF assms] and_then_def int_float_truediv_def
        float_truediv_def)
qed

lemma is_bar_Bar: "is_bar (Bar label n v)"
  by (simp add: is_bar_def)

lemma print_bars_ok:
  assumes "tot \<noteq> 0" and "\<bar>tot\<bar> < 2 ^ 1000" and "\<forall>i\<in>set data. \<bar>snd i\<bar> < 2 ^ 1000"
  shows "\<exists>bars. print_bars data tot w = Inr bars \<and> length bars = length data \<and>
           list_all is_bar bars"
  using assms(3)
proof (induction data)
  case Nil
  show ?case by simp
next
  case (Cons i data)
  from Cons.prems have "\<bar>snd i\<bar> < 2 ^ 1000" by simp
  from printBar_ok [OF assms(1,2) this]
  obtain n where b: "printBar (snd i) tot (fst i @ replicate (w - length (fst i)) 32) 50 =
      Inr [Bar (fst i @ replicate (w - length (fst i)) 32) n (snd i)]"
    by blast
  from Cons obtain bars where "print_bars data tot w = Inr bars" "length bars = length data"
    "list_all is_bar bars"
    by auto
  with b show ?case
    by (simp add: and_then_def is_bar_Bar)
qed

lemma print_bars_zero:
  assumes "data \<noteq> []" and "\<forall>i\<in>set data. \<bar>snd i\<bar> < 2 ^ 1000"
  shows "print_bars data 0 w = Inl ZeroDivisionError"
proof (cases data)
  case Nil
  with assms(1) show ?thesis by simp
next
  case (Cons i rest)
  with assms(2) have "\<bar>snd i\<bar> < 2 ^ 1000" by simp
  then show ?thesis
    by (simp add: Cons printBar_zero and_then_def)
qed

lemma py_max_Max: "xs \<noteq> [] \<Longrightarrow> py_max xs = Inr (Max (set xs))"
  by (cases xs) (simp_all add: py_max_def Max.set_eq_fold [symmetric])

lemma first_sorted_py: "xs \<noteq> [] \<Longrightarrow> \<exists>x. first (sorted_py key r xs) = Inr x"
proof -
  assume "xs \<noteq> []"
  moreover have "length (sorted_py key r xs) = length xs"
    by (simp add: sorted_py_def)
  ultimately show ?thesis
    by (cases "sorted_py key r xs") (simp_all add: first_def)
qed

lemma printBarChart_nonempty:
  assumes "data \<noteq> []"
  shows "\<exists>w. printBarChart data = print_bars data (Max (set (map snd data))) w"
proof -
  from first_sorted_py [OF assms]
  obtain x where "first (sorted_py (\<lambda>tup. int (length (fst tup))) True data) = Inr x"
    by blast
  then show ?thesis
    using assms by (auto simp: printBarChart_def py_max_Max and_then_def)
qed

lemma Max_magnitude:
  assumes "data \<noteq> []" and "\<forall>i\<in>set data. \<bar>snd i\<bar> < (B::int)"
  shows "\<bar>Max (set (map snd data))\<bar> < B"
proof -
  have "Max (set (map snd data)) \<in> set (map snd data)"
    using assms(1) by (intro Max_in) simp_all
  with assms(2) show ?thesis by auto
qed

lemma printBarChart_ok:
  assumes "data \<noteq> []" and "Max (set (map snd data)) \<noteq> 0"
    and "\<forall>i\<in>set data. \<bar>snd i\<bar> < 2 ^ 1000"
  shows "\<exists>bars. printBarChart data = Inr bars \<and> length bars = length data \<and>
           list_all is_bar bars"
proof -
  from printBarChart_nonempty [OF assms(1)]
  obtain w where "printBarChart data = print_bars data (Max (set (map snd data))) w" ..
  with print_bars_ok [OF assms(2) Max_magnitude [OF assms(1,3)] assms(3), of w]
  show ?thesis by simp
qed

lemma printBarChart_zero:
  assumes "data \<noteq> []" and "Max (set (map snd data)) = 0"
    and "\<forall>i\<in>set data. \<bar>snd i\<bar> < 2 ^ 1000"
  shows "printBarChart data = Inl ZeroDivisionError"
proof -
  from printBarChart_nonempty [OF assms(1)]
  obtain w where "printBarChart data = print_bars data (Max (set (map snd data))) w" ..
  with print_bars_zero [OF assms(1,3), of w] assms(2)
  show ?thesis by simp
qed

lemma printBarChart_counts:
  assumes "\<forall>i\<in>set data. 1 \<le> snd i \<and> snd i < 2 ^ 1000"
  shows "\<exists>chart. printBarChart data = Inr chart \<and> filter is_other chart = []"
proof (cases "data = []")
  case True
  then show ?thesis
    by (simp add: printBarChart_def is_other_def)
next
  case False
  have m: "Max (set (map snd data)) \<in> set (map snd data)"
    using False by (intro Max_in) simp_all
  with assms have nz: "Max (set (map snd data)) \<noteq> 0" by auto
  have b: "\<forall>i\<in>set data. \<bar>snd i\<bar> < 2 ^ 1000"
    using assms by auto
  from printBarChart_ok [OF False nz b]
  obtain bars where c: "printBarChart data = Inr bars" and l: "list_all is_bar bars"
    by blast
  have "filter is_other bars = []"
    using l by (auto simp: filter_empty_conv list_all_iff is_bar_def is_other_def
        split: line.splits)
  with c show ?thesis by simp
qed

text \<open>
  C4. On the entries (A, 10), (B, 5) the bars are 50 and 25 cells long, and on the empty
  table the renderer prints only the line Empty data. But the bar length is not
  \<open>floor (count / scale)\<close> with \<open>scale = max / 50\<close> on every table: both divisions are
  rounded to a double, and for the single entry (A, 7) the scale 7 / 50 is rounded up, the
  quotient 7 / scale falls just below 50, and the bar is 49 cells long where the claim's
  formula gives 50.
\<close>

theorem printBarChart_scale_rounding:
  "printBarChart two_bars = Inr [Bar (str_of ''A'') 50 10, Bar (str_of ''B'') 25 5] \<and>
   printBarChart [] = Inr [Empty_data] \<and>
   printBarChart [(str_of ''A'', 7)] = Inr [Bar (str_of ''A'') 49 7] \<and>
   \<lfloor>(7::rat) / (7 / 50)\<rfloor> = 50"
proof -
  have "printBarChart two_bars = Inr [Bar (str_of ''A'') 50 10, Bar (str_of ''B'') 25 5]"
    by code_simp
  moreover have "printBarChart [] = Inr [Empty_data]"
    by (simp add: printBarChart_def)
  moreover have "printBarChart [(str_of ''A'', 7)] = Inr [Bar (str_of ''A'') 49 7]"
    by code_simp
  moreover have "\<lfloor>(7::rat) / (7 / 50)\<rfloor> = 50"
    by simp
  ultimately show ?thesis by blast
qed

section \<open>The sections and their summary line\<close>

lemma sum_counts_bounds:
  assumes "\<forall>i\<in>set data. 1 \<le> snd i \<and> snd i < (B::int)"
  shows "0 \<le> sum_list (map snd data) \<and> sum_list (map snd data) \<le> int (length data) * B"
  using assms
proof (induction data)
  case Nil
  show ?case by simp
next
  case (Cons i data)
  then have "0 \<le> sum_list (map snd data) \<and> sum_list (map snd data) \<le> int (length data) * B"
    by simp
  moreover from Cons.prems have "1 \<le> snd i" "snd i < B" by simp_all
  ultimately show ?case by (simp add: algebra_simps)
qed

lemma average_ok:
  assumes "data \<noteq> []" and "\<forall>i\<in>set data. 1 \<le> snd i \<and> snd i < 2 ^ 1000"
  shows "\<exists>average. int_truediv (sum_list (map snd data)) (int (length data)) = Inr average"
proof -
  define s where "s = sum_list (map snd data)"
  define n where "n = int (length data)"
  have n: "0 < n" using assms(1) by (simp add: n_def)
  from sum_counts_bounds [OF assms(2)] have s: "0 \<le> s" "s \<le> n * 2 ^ 1000"
    by (simp_all add: s_def n_def)
  have "(of_int s :: rat) \<le> of_int (n * 2 ^ 1000)"
    using s(2) by (simp only: of_int_le_iff)
  also have "\<dots> = of_int n * 2 powi 1000"
    by (simp only: of_int_mult of_int_power of_int_numeral power_int_numeral)
  finally have "(of_int s :: rat) / of_int n \<le> 2 powi 1000"
    using n by (simp add: pos_divide_le_eq mult.commute)
  moreover have "0 \<le> (of_int s :: rat) / of_int n"
    using s(1) n by simp
  ultimately have "\<bar>(of_int s :: rat) / of_int n\<bar> \<le> 2 powi 1000"
    by simp
  then have "\<bar>round_double (of_int s / of_int n)\<bar> \<le> 2 powi 1000"
    by (rule round_double_le_pow2)
  then have "\<not> overflows (round_double (of_int s / of_int n))"
    by (rule not_overflows) simp
  then show ?thesis
    using n by (simp add: int_truediv_def Let_def s_def n_def)
qed

lemma slice_to_subset: "set (slice_to n xs) \<subseteq> set xs"
  by (auto simp: slice_to_def dest: in_set_takeD)

lemma printBarChart_slice:
  assumes "\<forall>i\<in>set data. 1 \<le> snd i \<and> snd i < 2 ^ 1000"
  shows "\<exists>chart. printBarChart (slice_to n data) = Inr chart \<and> filter is_other chart = []"
proof -
  have "\<forall>i\<in>set (slice_to n data). 1 \<le> snd i \<and> snd i < 2 ^ 1000"
    using assms slice_to_subset [of n data] by blast
  then show ?thesis by (rule printBarChart_counts)
qed

lemma other_beyond_eq:
  "0 \<le> n \<Longrightarrow>
   (if int (length data) > n
    then [Separator, Other_summary (length (slice_from n data))
            (sum_list (map snd (slice_from n data)))]
    else []) = (if int (length data) > n then Separator # other_beyond n data else [])"
  by (simp add: other_beyond_def slice_from_def)

lemma is_other_simps:
  "is_other (Other_summary k s)" "\<not> is_other Rule" "\<not> is_other (Title t)"
  "\<not> is_other (Stat t v)" "\<not> is_other (Average a)" "\<not> is_other Blank"
  "\<not> is_other Separator"
  by (simp_all add: is_other_def)

lemma filter_other_beyond: "filter is_other (other_beyond n data) = other_beyond n data"
  by (simp add: other_beyond_def is_other_simps)

lemma section_senders_other:
  assumes "0 \<le> n" and "\<forall>i\<in>set data. 1 \<le> snd i \<and> snd i < 2 ^ 1000"
  shows "\<exists>lines. section_senders n data = Inr lines \<and>
           filter is_other lines = other_beyond n data"
proof -
  from printBarChart_slice [OF assms(2), of n]
  obtain chart where c: "printBarChart (slice_to n data) = Inr chart" "filter is_other chart = []"
    by blast
  have "\<exists>average. (if length data \<noteq> 0
          then int_truediv (sum_list (map snd data)) (int (length data)) else Inr 0) = Inr average"
    using average_ok [OF _ assms(2)] by (cases "data = []") simp_all
  then obtain average where a: "(if length data \<noteq> 0
          then int_truediv (sum_list (map snd data)) (int (length data)) else Inr 0) = Inr average"
    by blast
  show ?thesis
    unfolding section_senders_def a c(1) and_then_def other_beyond_eq [OF assms(1)]
    using c(2) by (simp add: is_other_simps filter_other_beyond) (simp add: other_beyond_def)
qed

lemma section_domains_other:
  assumes "0 \<le> n" and "\<forall>i\<in>set data. 1 \<le> snd i \<and> snd i < 2 ^ 1000"
  shows "\<exists>lines. section_domains n data = Inr lines \<and>
           filter is_other lines = other_beyond n data"
proof -
  from printBarChart_slice [OF assms(2), of n]
  obtain chart where c: "printBarChart (slice_to n data) = Inr chart" "filter is_other chart = []"
    by blast
  show ?thesis
    unfolding section_domains_def c(1) and_then_def other_beyond_eq [OF assms(1)]
    using c(2) by (simp add: is_other_simps filter_other_beyond) (simp add: other_beyond_def)
qed

lemma section_words_other:
  assumes "0 \<le> n" and "\<forall>i\<in>set data. 1 \<le> snd i \<and> snd i < 2 ^ 1000"
  shows "\<exists>lines. section_words n data = Inr lines \<and>
           filter is_other lines = other_beyond n data"
proof -
  from printBarChart_slice [OF assms(2), of n]
  obtain chart where c: "printBarChart (slice_to n data) = Inr chart" "filter is_other chart = []"
    by blast
  show ?thesis
    unfolding section_words_def c(1) and_then_def other_beyond_eq [OF assms(1)]
    using c(2) by (simp add: is_other_simps filter_other_beyond) (simp add: other_beyond_def)
qed

lemma other_beyond_map:
  "other_beyond n (map (\<lambda>x. (f x, snd x)) table) = other_beyond n table"
  by (simp add: other_beyond_def drop_map comp_def)

lemma section_emojis_other:
  assumes "0 \<le> n" and "\<forall>i\<in>set table. 1 \<le> snd i \<and> snd i < 2 ^ 1000"
  shows "\<exists>lines. section_emojis demojize n table = Inr lines \<and>
           filter is_other lines = other_beyond n table"
proof -
  define data where
    "data = map (\<lambda>x. (fst x @ str_of '' ('' @ demojize (fst x) @ str_of '') '', snd x)) table"
  have b: "\<forall>i\<in>set data. 1 \<le> snd i \<and> snd i < 2 ^ 1000"
    using assms(2) by (auto simp: data_def)
  from printBarChart_slice [OF b, of n]
  obtain chart where c: "printBarChart (slice_to n data) = Inr chart" "filter is_other chart = []"
    by blast
  have o: "other_beyond n data = other_beyond n table"
    unfolding data_def by (rule other_beyond_map)
  show ?thesis
    unfolding section_emojis_def Let_def data_def [symmetric] c(1) and_then_def
      other_beyond_eq [OF assms(1)] o [symmetric]
    using c(2) by (simp add: is_other_simps filter_other_beyond) (simp add: other_beyond_def)
qed

lemma section_fav_emoji_other:
  assumes "\<forall>i\<in>set table. 1 \<le> snd i \<and> snd i < 2 ^ 1000"
  shows "\<exists>lines. section_fav_emoji demojize n table = Inr lines \<and> filter is_other lines = []"
proof -
  define data where
    "data = map (\<lambda>x. (fst (fst x) @ str_of '' | '' @ snd (fst x) @ str_of '' | (''
                        @ demojize (snd (fst x)) @ str_of '')'', snd x)) table"
  have b: "\<forall>i\<in>set data. 1 \<le> snd i \<and> snd i < 2 ^ 1000"
    using assms by (auto simp: data_def)
  from printBarChart_slice [OF b, of n]
  obtain chart where c: "printBarChart (slice_to n data) = Inr chart" "filter is_other chart = []"
    by blast
  show ?thesis
    unfolding section_fav_emoji_def Let_def data_def [symmetric] c(1) and_then_def
    using c(2) by (simp add: is_other_simps)
qed

lemma section_fav_word_other:
  assumes "\<forall>i\<in>set table. 1 \<le> snd i \<and> snd i < 2 ^ 1000"
  shows "\<exists>lines. section_fav_word n table = Inr lines \<and> filter is_other lines = []"
proof -
  define data where
    "data = map (\<lambda>x. (fst (fst x) @ str_of '' | '' @ snd (fst x) @ str_of '' | '', snd x)) table"
  have b: "\<forall>i\<in>set data. 1 \<le> snd i \<and> snd i < 2 ^ 1000"
    using assms by (auto simp: data_def)
  from printBarChart_slice [OF b, of n]
  obtain chart where c: "printBarChart (slice_to n data) = Inr chart" "filter is_other chart = []"
    by blast
  show ?thesis
    unfolding section_fav_word_def Let_def data_def [symmetric] c(1) and_then_def
    using c(2) by (simp add: is_other_simps)
qed

text \<open>
  C9, as claimed: every section that draws a bar chart of a table with more than N entries
  adds one Other line. The favourite-word section does not: with two favourites and a
  sample size of 1 it draws the first bar and no Other line.
\<close>

theorem section_fav_word_other_counterexample:
  "int (length two_favourites) > 1 \<and>
   section_fav_word 1 two_favourites =
     Inr [Rule, Title ''Favorite Word by Member'', Rule, Blank,
          Bar (str_of ''Al | hi | '') 50 2, Blank, Blank]"
proof -
  have "section_fav_word 1 two_favourites =
     Inr [Rule, Title ''Favorite Word by Member'', Rule, Blank,
          Bar (str_of ''Al | hi | '') 50 2, Blank, Blank]"
    by code_simp
  then show ?thesis by (simp add: two_favourites_def)
qed

text \<open>
  C9, amended. Let the sample size be at least 0 and the counts of the table at least 1
  (and below \<open>2 ^ 1000\<close>). The sender, domain, emoji and word sections render, besides the
  chart of the first N entries, exactly one Other line when the table has more than N
  entries, showing the number of entries beyond N and the sum of their counts, and no Other
  line otherwise. The favourite-emoji and favourite-word sections render the chart of the
  first N entries and never an Other line.
\<close>

theorem sections_other_summary:
  assumes "0 \<le> n"
    and "\<forall>i\<in>set data. 1 \<le> snd i \<and> snd i < 2 ^ 1000"
    and "\<forall>i\<in>set favs. 1 \<le> snd i \<and> snd i < 2 ^ 1000"
  shows "(\<exists>lines. section_senders n data = Inr lines \<and>
            filter is_other lines = other_beyond n data) \<and>
         (\<exists>lines. section_domains n data = Inr lines \<and>
            filter is_other lines = other_beyond n data) \<and>
         (\<exists>lines. section_emojis demojize n data = Inr lines \<and>
            filter is_other lines = other_beyond n data) \<and>
         (\<exists>lines. section_words n data = Inr lines \<and>
            filter is_other lines = other_beyond n data) \<and>
         (\<exists>lines. section_fav_emoji demojize n favs = Inr lines \<and> filter is_other lines = []) \<and>
         (\<exists>lines. section_fav_word n favs = Inr lines \<and> filter is_other lines = [])"
  using section_senders_other [OF assms(1,2)] section_domains_other [OF assms(1,2)]
    section_emojis_other [OF assms(1,2)] section_words_other [OF assms(1,2)]
    section_fav_emoji_other [OF assms(3)] section_fav_word_other [OF assms(3)]
  by blast

theorem sections_other_summary_witness:
  "(0::int) \<le> 1 \<and> list_all (\<lambda>i. 1 \<le> snd i \<and> snd i < 2 ^ 1000) two_bars \<and>
   list_all (\<lambda>i. 1 \<le> snd i \<and> snd i < 2 ^ 1000) two_favourites \<and>
   (\<exists>lines. section_senders 1 two_bars = Inr lines \<and>
      filter is_other lines = [Other_summary 1 5]) \<and>
   (\<exists>lines. section_fav_word 1 two_favourites = Inr lines \<and> filter is_other lines = [])"
proof -
  have a: "(0::int) \<le> 1" by simp
  have b: "\<forall>i\<in>set two_bars. 1 \<le> snd i \<and> snd i < 2 ^ 1000"
    by (simp add: two_bars_def)
  have c: "\<forall>i\<in>set two_favourites. 1 \<le> snd i \<and> snd i < 2 ^ 1000"
    by (simp add: two_favourites_def)
  have d: "other_beyond 1 two_bars = [Other_summary 1 5]"
    by (simp add: other_beyond_def two_bars_def)
  from sections_other_summary [OF a b c, of id]
  have "\<exists>lines. section_senders 1 two_bars = Inr lines \<and>
      filter is_other lines = other_beyond 1 two_bars"
    and "\<exists>lines. section_fav_word 1 two_favourites = Inr lines \<and> filter is_other lines = []"
    by blast+
  with b c d show ?thesis by (simp add: list_all_iff)
qed

section \<open>The calendar heat map\<close>

text \<open>
  \<open>max(data, key=data.get)\<close> finds a key of the largest count; below \<open>2 ^ 51\<close> the
  conversion of that count to a float and its products with 0.25, 0.5 and 0.75 are exact.
\<close>

lemma and_then_Inr: "and_then (Inr x) f = f x"
  by (simp add: and_then_def)

lemma fold_max_by_key:
  fixes key :: "'a \<Rightarrow> int"
  shows "key (fold (\<lambda>y m. if key m < key y then y else m) rest x) = fold max (map key rest) (key x)"
proof (induction rest arbitrary: x)
  case Nil
  show ?case by simp
next
  case (Cons y rest)
  have "key (if key x < key y then y else x) = max (key y) (key x)"
    by (auto simp: max_def)
  then show ?case
    using Cons.IH [of "if key x < key y then y else x"] by simp
qed

lemma fold_max_by_mem:
  "fold (\<lambda>y m. if key m < key y then y else m) rest x \<in> set (x # rest)"
proof (induction rest arbitrary: x)
  case Nil
  show ?case by simp
next
  case (Cons y rest)
  show ?case
    using Cons.IH [of "if key x < key y then y else x"] by (auto split: if_splits)
qed

lemma max_by_Max:
  fixes key :: "'a \<Rightarrow> int"
  assumes "xs \<noteq> []"
  shows "\<exists>k. max_by key xs = Inr k \<and> k \<in> set xs \<and> key k = Max (set (map key xs))"
proof (cases xs)
  case Nil
  with assms show ?thesis by simp
next
  case (Cons x rest)
  let ?k = "fold (\<lambda>y m. if key m < key y then y else m) rest x"
  have "key ?k = Max (set (map key (x # rest)))"
    by (simp only: fold_max_by_key list.map Max.set_eq_fold)
  moreover have "?k \<in> set (x # rest)"
    by (rule fold_max_by_mem)
  ultimately show ?thesis
    by (simp add: Cons max_by_def)
qed

lemma dict_get_distinct:
  "distinct (map fst data) \<Longrightarrow> map (\<lambda>k. dict_get data k 0) (map fst data) = map snd data"
proof -
  assume d: "distinct (map fst data)"
  have "dict_get data (fst p) 0 = snd p" if "p \<in> set data" for p
  proof -
    from that have "(fst p, snd p) \<in> set data" by simp
    with d have "map_of data (fst p) = Some (snd p)" by (rule map_of_is_SomeI)
    then show ?thesis by (simp add: dict_get_def)
  qed
  then show ?thesis by simp
qed

lemma max_val_of_calendar:
  assumes "data \<noteq> []" and "distinct (map fst data)"
  shows "and_then (max_by (\<lambda>k. dict_get data k 0) (dict_keys data)) (dict_index data) =
           Inr (max_count data)"
proof -
  have "dict_keys data \<noteq> []" using assms(1) by (simp add: dict_keys_def)
  from max_by_Max [OF this, of "\<lambda>k. dict_get data k 0"]
  obtain k where k: "max_by (\<lambda>k. dict_get data k 0) (dict_keys data) = Inr k"
    "k \<in> set (dict_keys data)"
    "dict_get data k 0 = Max (set (map (\<lambda>k. dict_get data k 0) (dict_keys data)))"
    by blast
  have "dict_get data k 0 = max_count data"
    using assms(1) by (simp only: k(3) dict_keys_def dict_get_distinct [OF assms(2)])
      (simp add: max_count_def)
  moreover from k(2) obtain v where "map_of data k = Some v"
    by (auto simp: dict_keys_def dest!: weak_map_of_SomeI)
  ultimately have "dict_index data k = Inr (max_count data)"
    by (simp add: dict_index_def dict_get_def)
  then show ?thesis
    by (simp only: k(1) and_then_Inr)
qed

lemma round_double_int_scaled:
  assumes "\<bar>k\<bar> < 2 ^ 53"
  shows "round_double (of_int k / 4) = of_int k / 4"
    and "round_double (of_int k / 2) = of_int k / 2"
    and "round_double (of_int k) = of_int k"
proof -
  have a: "(of_int k :: rat) / 4 = of_int k * 2 powi (- 2)"
    by (simp add: power_int_minus_divide)
  have b: "(of_int k :: rat) / 2 = of_int k * 2 powi (- 1)"
    by (simp add: power_int_minus_divide)
  have c: "(of_int k :: rat) = of_int k * 2 powi 0"
    by simp
  show "round_double (of_int k / 4) = of_int k / 4"
    unfolding a using assms by (rule round_double_exact)
  show "round_double (of_int k / 2) = of_int k / 2"
    unfolding b using assms by (rule round_double_exact)
  show "round_double (of_int k) = of_int k"
    using round_double_exact [OF assms, of 0] by simp
qed

lemma thresholds_exact:
  assumes "\<bar>m\<bar> < 2 ^ 51"
  shows "float_of_int m = Inr (of_int m)"
    and "float_mul (1 / 4) (of_int m) = 1 / 4 * of_int m"
    and "float_mul (1 / 2) (of_int m) = 1 / 2 * of_int m"
    and "float_mul (3 / 4) (of_int m) = 3 / 4 * of_int m"
proof -
  have m: "\<bar>m\<bar> < 2 ^ 53" "\<bar>3 * m\<bar> < 2 ^ 53"
    using assms by simp_all
  have "\<bar>of_int m :: rat\<bar> \<le> 2 powi 53"
  proof -
    have "(of_int \<bar>m\<bar> :: rat) \<le> of_int (2 ^ 53)"
      using m(1) by (simp only: of_int_le_iff)
    then show ?thesis by simp
  qed
  then have "\<not> overflows (of_int m)"
    by (rule not_overflows) simp
  then show "float_of_int m = Inr (of_int m)"
    by (simp add: float_of_int_def round_double_int_scaled(3) [OF m(1)])
  show "float_mul (1 / 4) (of_int m) = 1 / 4 * of_int m"
    using round_double_int_scaled(1) [OF m(1)] by (simp add: float_mul_def)
  show "float_mul (1 / 2) (of_int m) = 1 / 2 * of_int m"
    using round_double_int_scaled(2) [OF m(1)] by (simp add: float_mul_def)
  show "float_mul (3 / 4) (of_int m) = 3 / 4 * of_int m"
    using round_double_int_scaled(1) [OF m(2)] by (simp add: float_mul_def)
qed

lemma calendar_tick_spec:
  "calendar_tick data
     [0, 1 / 4 * of_int (max_count data), 1 / 2 * of_int (max_count data),
      3 / 4 * of_int (max_count data)] dict_key = spec_tick data dict_key"
  by (simp add: calendar_tick_def spec_tick_def spec_level_def split: option.splits)

lemma max_count_magnitude:
  assumes "\<forall>i\<in>set data. \<bar>snd i\<bar> < 2 ^ 51"
  shows "\<bar>max_count data\<bar> < 2 ^ 51"
proof (cases "data = []")
  case True
  then show ?thesis by (simp add: max_count_def)
next
  case False
  then show ?thesis
    using Max_magnitude [OF False assms] by (simp add: max_count_def)
qed

lemma printCalendar_spec:
  assumes "distinct (map fst data)" and "\<forall>i\<in>set data. \<bar>snd i\<bar> < 2 ^ 51"
  shows "printCalendar data =
     Inr (Calendar_header (map (take 3) days) #
          map (\<lambda>hour. Calendar_row hour (map (\<lambda>day. spec_tick data (day, hour)) days)) hours)"
proof -
  note t = thresholds_exact [OF max_count_magnitude [OF assms(2)]]
  have eq: "(if length data \<noteq> 0
        then and_then (max_by (\<lambda>k. dict_get data k 0) (dict_keys data)) (\<lambda>k.
             and_then (dict_index data k) float_of_int)
        else Inr 0) = Inr (of_int (max_count data))"
  proof (cases "data = []")
    case True
    then show ?thesis by (simp add: max_count_def)
  next
    case False
    from max_val_of_calendar [OF False assms(1)] show ?thesis
      using False by (auto simp: and_then_def t(1) split: sum.splits)
  qed
  show ?thesis
    by (simp only: printCalendar_def eq and_then_Inr Let_def t(2,3,4) calendar_tick_spec)
qed

text \<open>
  C3. For a mapping (a dictionary: its keys are distinct) with counts below \<open>2 ^ 51\<close>,
  \<open>printCalendar\<close> draws for each of the 24 hours and 7 days the glyph of the
  specification: the no-data glyph for a key that is not in the mapping, whatever the other
  cells hold, and otherwise level 4 when the count is greater than 0.75 of the largest count
  present, else level 3 when greater than 0.5 of it, else level 2 when greater than 0.25 of
  it, else level 1. The comparisons are strict: with a largest count of 10, the count 5 is
  level 2, 6 is level 3, 8 is level 4 and 2 is level 1.
\<close>

theorem printCalendar_levels:
  "(distinct (map fst data) \<and> (\<forall>i\<in>set data. \<bar>snd i\<bar> < 2 ^ 51) \<longrightarrow>
      printCalendar data =
        Inr (Calendar_header (map (take 3) days) #
             map (\<lambda>hour. Calendar_row hour (map (\<lambda>day. spec_tick data (day, hour)) days))
               hours)) \<and>
   (map_of data dict_key = None \<longrightarrow> spec_tick data dict_key = No_data) \<and>
   spec_level 10 5 = Level2 \<and> spec_level 10 6 = Level3 \<and> spec_level 10 8 = Level4 \<and>
   spec_level 10 2 = Level1"
proof -
  have "spec_level 10 5 = Level2 \<and> spec_level 10 6 = Level3 \<and> spec_level 10 8 = Level4 \<and>
   spec_level 10 2 = Level1"
    by (simp add: spec_level_def)
  moreover have "map_of data dict_key = None \<longrightarrow> spec_tick data dict_key = No_data"
    by (simp add: spec_tick_def)
  ultimately show ?thesis
    using printCalendar_spec [of data] by blast
qed

theorem printCalendar_levels_witness:
  "distinct (map fst heat) \<and> list_all (\<lambda>i. \<bar>snd i\<bar> < 2 ^ 51) heat \<and>
   (\<exists>header rows. printCalendar heat = Inr (header # rows) \<and> length rows = 24 \<and>
      rows ! 10 = Calendar_row (str_of ''10'')
                    [No_data, Level2, No_data, No_data, No_data, No_data, Level4] \<and>
      rows ! 9 = Calendar_row (str_of ''09'')
                    [Level4, No_data, No_data, No_data, No_data, No_data, No_data])"
proof -
  have a: "distinct (map fst heat)"
    by code_simp
  have b: "\<forall>i\<in>set heat. \<bar>snd i\<bar> < 2 ^ 51"
    by (simp add: heat_def)
  let ?rows = "map (\<lambda>hour. Calendar_row hour (map (\<lambda>day. spec_tick heat (day, hour)) days))
                 hours"
  from printCalendar_levels [of heat] a b
  have p: "printCalendar heat = Inr (Calendar_header (map (take 3) days) # ?rows)"
    by blast
  have m: "max_count heat = 10"
    by (simp add: max_count_def heat_def)
  have l: "length ?rows = 24"
    by (simp add: hours_def)
  have r10: "?rows ! 10 = Calendar_row (str_of ''10'')
                    [No_data, Level2, No_data, No_data, No_data, No_data, Level4]"
    unfolding spec_tick_def m by code_simp
  have r9: "?rows ! 9 = Calendar_row (str_of ''09'')
                    [Level4, No_data, No_data, No_data, No_data, No_data, No_data]"
    unfolding spec_tick_def m by code_simp
  from p l r10 r9 a b show ?thesis
    by (simp only: list_all_iff) blast
qed

section \<open>Rendering the tables of the program\<close>

text \<open>
  Every count of a table of \<open>reduce_and_sort\<close> is at least 1 and at most the length of
  the list that was counted, and \<open>reduce_fav_item\<close> keeps a part of its table: the charts
  that \<open>main\<close> draws never have a zero scale, and its six sections render.
\<close>

lemma reduce_and_sort_counts:
  assumes "p \<in> set (reduce_and_sort xs)"
  shows "1 \<le> snd p \<and> snd p \<le> int (length xs)"
proof -
  from assms obtain k where k: "k \<in> set xs" "p = (k, int (count_list xs k))"
    by (auto simp: reduce_and_sort_entries)
  from k(1) have "count_list xs k \<noteq> 0"
    by (simp add: count_list_0_iff)
  then have "0 < count_list xs k"
    by simp
  moreover have "count_list xs k \<le> length xs"
    by (rule count_le_length)
  ultimately show ?thesis by (simp add: k(2))
qed

lemma ranked_counts_ok:
  assumes "int (length xs) < 2 ^ 1000"
  shows "\<forall>i\<in>set (reduce_and_sort xs). 1 \<le> snd i \<and> snd i < 2 ^ 1000"
proof
  fix i
  assume "i \<in> set (reduce_and_sort xs)"
  from reduce_and_sort_counts [OF this] assms show "1 \<le> snd i \<and> snd i < 2 ^ 1000"
    by linarith
qed

lemma subseq_set: "subseq xs ys \<Longrightarrow> set xs \<subseteq> set ys"
  by (induction rule: list_emb.induct) auto

lemma reduce_fav_item_subset: "set (reduce_fav_item t) \<subseteq> set t"
  unfolding reduce_fav_item_def by (rule subseq_set [OF fav_loop_subseq])

lemma favourite_counts_ok:
  assumes "int (length xs) < 2 ^ 1000"
  shows "\<forall>i\<in>set (reduce_fav_item (reduce_and_sort xs)). 1 \<le> snd i \<and> snd i < 2 ^ 1000"
  using ranked_counts_ok [OF assms] reduce_fav_item_subset [of "reduce_and_sort xs"] by blast

lemma length_filter_bound:
  "int (length xs) < B \<Longrightarrow> int (length (filter P xs)) < B"
  using length_filter_le [of P xs] by linarith

lemma Max_counts_positive:
  assumes "data \<noteq> []" and "\<forall>i\<in>set data. 1 \<le> snd i"
  shows "1 \<le> Max (set (map snd data))"
proof -
  have "Max (set (map snd data)) \<in> set (map snd data)"
    using assms(1) by (intro Max_in) simp_all
  with assms(2) show ?thesis by auto
qed

lemma section_senders_ok:
  assumes "\<forall>i\<in>set data. 1 \<le> snd i \<and> snd i < 2 ^ 1000"
  shows "\<exists>lines. section_senders n data = Inr lines"
proof -
  from printBarChart_slice [OF assms, of n]
  obtain chart where c: "printBarChart (slice_to n data) = Inr chart"
    by blast
  have "\<exists>average. (if length data \<noteq> 0
          then int_truediv (sum_list (map snd data)) (int (length data)) else Inr 0) = Inr average"
    using average_ok [OF _ assms] by (cases "data = []") simp_all
  then obtain average where a: "(if length data \<noteq> 0
          then int_truediv (sum_list (map snd data)) (int (length data)) else Inr 0) = Inr average"
    by blast
  show ?thesis
    unfolding section_senders_def a c and_then_Inr by blast
qed

lemma section_domains_ok:
  assumes "\<forall>i\<in>set data. 1 \<le> snd i \<and> snd i < 2 ^ 1000"
  shows "\<exists>lines. section_domains n data = Inr lines"
proof -
  from printBarChart_slice [OF assms, of n]
  obtain chart where c: "printBarChart (slice_to n data) = Inr chart"
    by blast
  show ?thesis
    unfolding section_domains_def c and_then_Inr by blast
qed

lemma section_words_ok:
  assumes "\<forall>i\<in>set data. 1 \<le> snd i \<and> snd i < 2 ^ 1000"
  shows "\<exists>lines. section_words n data = Inr lines"
proof -
  from printBarChart_slice [OF assms, of n]
  obtain chart where c: "printBarChart (slice_to n data) = Inr chart"
    by blast
  show ?thesis
    unfolding section_words_def c and_then_Inr by blast
qed

lemma relabelled_chart_ok:
  assumes "\<forall>i\<in>set table. 1 \<le> snd i \<and> snd i < 2 ^ 1000"
  shows "\<exists>chart. printBarChart (slice_to n (map (\<lambda>x. (f x, snd x)) table)) = Inr chart"
proof -
  have "\<forall>i\<in>set (map (\<lambda>x. (f x, snd x)) table). 1 \<le> snd i \<and> snd i < 2 ^ 1000"
    using assms by auto
  from printBarChart_slice [OF this, of n] show ?thesis by blast
qed

lemma section_emojis_ok:
  assumes "\<forall>i\<in>set table. 1 \<le> snd i \<and> snd i < 2 ^ 1000"
  shows "\<exists>lines. section_emojis demojize n table = Inr lines"
proof -
  from relabelled_chart_ok [OF assms,
      where n = n and f = "\<lambda>x. fst x @ str_of '' ('' @ demojize (fst x) @ str_of '') ''"]
  obtain chart where c: "printBarChart (slice_to n
      (map (\<lambda>x. (fst x @ str_of '' ('' @ demojize (fst x) @ str_of '') '', snd x)) table)) =
      Inr chart"
    by blast
  show ?thesis
    unfolding section_emojis_def Let_def c and_then_Inr by blast
qed

lemma section_fav_emoji_ok:
  assumes "\<forall>i\<in>set table. 1 \<le> snd i \<and> snd i < 2 ^ 1000"
  shows "\<exists>lines. section_fav_emoji demojize n table = Inr lines"
proof -
  from relabelled_chart_ok [OF assms,
      where n = n and f = "\<lambda>x. fst (fst x) @ str_of '' | '' @ snd (fst x) @ str_of '' | (''
                   @ demojize (snd (fst x)) @ str_of '')''"]
  obtain chart where c: "printBarChart (slice_to n
      (map (\<lambda>x. (fst (fst x) @ str_of '' | '' @ snd (fst x) @ str_of '' | (''
                   @ demojize (snd (fst x)) @ str_of '')'', snd x)) table)) = Inr chart"
    by blast
  show ?thesis
    unfolding section_fav_emoji_def Let_def c and_then_Inr by blast
qed

lemma section_fav_word_ok:
  assumes "\<forall>i\<in>set table. 1 \<le> snd i \<and> snd i < 2 ^ 1000"
  shows "\<exists>lines. section_fav_word n table = Inr lines"
proof -
  from relabelled_chart_ok [OF assms,
      where n = n and f = "\<lambda>x. fst (fst x) @ str_of '' | '' @ snd (fst x) @ str_of '' | ''"]
  obtain chart where c: "printBarChart (slice_to n
      (map (\<lambda>x. (fst (fst x) @ str_of '' | '' @ snd (fst x) @ str_of '' | '', snd x)) table)) =
      Inr chart"
    by blast
  show ?thesis
    unfolding section_fav_word_def Let_def c and_then_Inr by blast
qed

lemma slice_nonzero_scale:
  assumes "slice_to n (reduce_and_sort xs) \<noteq> []"
  shows "1 \<le> Max (set (map snd (slice_to n (reduce_and_sort xs))))"
proof -
  have "\<forall>i\<in>set (slice_to n (reduce_and_sort xs)). 1 \<le> snd i"
    using reduce_and_sort_counts [of _ xs] slice_to_subset [of n "reduce_and_sort xs"] by blast
  with assms show ?thesis by (rule Max_counts_positive)
qed

lemma report_renders:
  assumes "int (length (senders cc)) < 2 ^ 1000" and "int (length (all_words cc)) < 2 ^ 1000"
    and "int (length (all_domains cc)) < 2 ^ 1000" and "int (length (all_emojis cc)) < 2 ^ 1000"
    and "int (length (fav_emoji cc)) < 2 ^ 1000" and "int (length (fav_word cc)) < 2 ^ 1000"
  shows "(\<exists>lines. section_senders n (reduce_and_sort (senders cc)) = Inr lines) \<and>
         (\<exists>lines. section_domains n (reduce_and_sort (all_domains cc)) = Inr lines) \<and>
         (\<exists>lines. section_emojis demojize n (reduce_and_sort (all_emojis cc)) = Inr lines) \<and>
         (\<exists>lines. section_fav_emoji demojize n (fav_emoji_table cc) = Inr lines) \<and>
         (\<exists>lines. section_words n (words_table U stop_words cc) = Inr lines) \<and>
         (\<exists>lines. section_fav_word n (fav_word_table U stop_words cc) = Inr lines)"
proof -
  have w: "int (length (reduce_and_filter_words U stop_words (all_words cc))) < 2 ^ 1000"
    unfolding reduce_and_filter_words_eq length_map
    using assms(2) by (rule length_filter_bound)
  have f: "int (length (filter (\<lambda>x. filter_single_word U stop_words (snd x)) (fav_word cc)))
             < 2 ^ 1000"
    using assms(6) by (rule length_filter_bound)
  show ?thesis
    using section_senders_ok [OF ranked_counts_ok [OF assms(1)], of n]
      section_domains_ok [OF ranked_counts_ok [OF assms(3)], of n]
      section_emojis_ok [OF ranked_counts_ok [OF assms(4)], of demojize n]
      section_fav_emoji_ok [OF favourite_counts_ok [OF assms(5)], of demojize n]
      section_words_ok [OF ranked_counts_ok [OF w], of n]
      section_fav_word_ok [OF favourite_counts_ok [OF f], of n]
    unfolding fav_emoji_table_def words_table_def fav_word_table_def fav_word_ranked_eq
    by blast
qed

text \<open>
  C8, as claimed: for every input to the bar renderer, a zero scale is a guarded branch that
  draws bars of length zero and divides nothing. The renderer has no such branch: called on
  the table (A, 0), a well-formed input of \<open>printBarChart\<close>, it divides and raises.
\<close>

theorem printBarChart_zero_max_counterexample:
  "printBarChart [(str_of ''A'', 0)] = Inl ZeroDivisionError"
  by code_simp

text \<open>
  C8, amended. The only guarded case of the renderer is the empty table, which prints the
  line Empty data. There is no branch for a zero scale: a table that is not empty, with
  counts below \<open>2 ^ 1000\<close> in magnitude, raises \<open>ZeroDivisionError\<close> when its largest
  count is 0, and is rendered without an exception, one bar per entry, when its largest
  count is not 0. The program never reaches the zero scale: every count of a table of
  \<open>reduce_and_sort\<close>, and of the favourites taken from one, is at least 1, so the largest
  count of every non-empty slice of such a table is at least 1, and for a chat counter
  whose lists are shorter than \<open>2 ^ 1000\<close> each of the six sections of \<open>main\<close> renders
  its table without an exception, whatever the sample size.
\<close>

theorem printBarChart_division_guard:
  "printBarChart [] = Inr [Empty_data] \<and>
   (data \<noteq> [] \<and> (\<forall>i\<in>set data. \<bar>snd i\<bar> < 2 ^ 1000) \<longrightarrow>
      (Max (set (map snd data)) = 0 \<longrightarrow> printBarChart data = Inl ZeroDivisionError) \<and>
      (Max (set (map snd data)) \<noteq> 0 \<longrightarrow>
         (\<exists>bars. printBarChart data = Inr bars \<and> length bars = length data \<and>
            list_all is_bar bars))) \<and>
   (\<forall>p\<in>set (reduce_and_sort xs). 1 \<le> snd p) \<and>
   (\<forall>p\<in>set (reduce_fav_item (reduce_and_sort ps)). 1 \<le> snd p) \<and>
   (slice_to n (reduce_and_sort xs) \<noteq> [] \<longrightarrow>
      1 \<le> Max (set (map snd (slice_to n (reduce_and_sort xs))))) \<and>
   (int (length (senders cc)) < 2 ^ 1000 \<and> int (length (all_words cc)) < 2 ^ 1000 \<and>
    int (length (all_domains cc)) < 2 ^ 1000 \<and> int (length (all_emojis cc)) < 2 ^ 1000 \<and>
    int (length (fav_emoji cc)) < 2 ^ 1000 \<and> int (length (fav_word cc)) < 2 ^ 1000 \<longrightarrow>
      (\<exists>lines. section_senders n (reduce_and_sort (senders cc)) = Inr lines) \<and>
      (\<exists>lines. section_domains n (reduce_and_sort (all_domains cc)) = Inr lines) \<and>
      (\<exists>lines. section_emojis demojize n (reduce_and_sort (all_emojis cc)) = Inr lines) \<and>
      (\<exists>lines. section_fav_emoji demojize n (fav_emoji_table cc) = Inr lines) \<and>
      (\<exists>lines. section_words n (words_table U stop_words cc) = Inr lines) \<and>
      (\<exists>lines. section_fav_word n (fav_word_table U stop_words cc) = Inr lines))"
proof -
  have a: "printBarChart [] = Inr [Empty_data]"
    by (simp add: printBarChart_def)
  have b: "\<forall>p\<in>set (reduce_and_sort xs). 1 \<le> snd p"
    using reduce_and_sort_counts [of _ xs] by blast
  have c: "\<forall>p\<in>set (reduce_fav_item (reduce_and_sort ps)). 1 \<le> snd p"
    using reduce_and_sort_counts [of _ ps] reduce_fav_item_subset [of "reduce_and_sort ps"]
    by blast
  from a b c show ?thesis
    using printBarChart_zero [of data] printBarChart_ok [of data]
      slice_nonzero_scale [of n xs]
      report_renders [of cc n demojize U stop_words]
    by blast
qed

theorem printBarChart_division_guard_witness:
  "two_bars \<noteq> [] \<and> list_all (\<lambda>i. \<bar>snd i\<bar> < 2 ^ 1000) two_bars \<and>
   Max (set (map snd two_bars)) \<noteq> 0 \<and>
   (\<exists>bars. printBarChart two_bars = Inr bars \<and> length bars = length two_bars \<and>
      list_all is_bar bars) \<and>
   reduce_and_sort (senders small_chat) = [(str_of ''Al'', 2), (str_of ''Bo'', 1)] \<and>
   list_all (\<lambda>p. 1 \<le> snd p) (reduce_and_sort (senders small_chat)) \<and>
   reduce_fav_item (reduce_and_sort (fav_word small_chat)) \<noteq> [] \<and>
   list_all (\<lambda>p. 1 \<le> snd p) (reduce_fav_item (reduce_and_sort (fav_word small_chat))) \<and>
   slice_to 1 (reduce_and_sort (senders small_chat)) \<noteq> [] \<and>
   1 \<le> Max (set (map snd (slice_to 1 (reduce_and_sort (senders small_chat))))) \<and>
   int (length (senders small_chat)) < 2 ^ 1000 \<and>
   int (length (all_words small_chat)) < 2 ^ 1000 \<and>
   int (length (all_domains small_chat)) < 2 ^ 1000 \<and>
   int (length (all_emojis small_chat)) < 2 ^ 1000 \<and>
   int (length (fav_emoji small_chat)) < 2 ^ 1000 \<and>
   int (length (fav_word small_chat)) < 2 ^ 1000 \<and>
   (\<exists>lines. section_senders 1 (reduce_and_sort (senders small_chat)) = Inr lines) \<and>
   (\<exists>lines. section_domains 1 (reduce_and_sort (all_domains small_chat)) = Inr lines) \<and>
   (\<exists>lines. section_emojis id 1 (reduce_and_sort (all_emojis small_chat)) = Inr lines) \<and>
   (\<exists>lines. section_fav_emoji id 1 (fav_emoji_table small_chat) = Inr lines) \<and>
   (\<exists>lines. section_words 1 (words_table ascii_db [] small_chat) = Inr lines) \<and>
   (\<exists>lines. section_fav_word 1 (fav_word_table ascii_db [] small_chat) = Inr lines)"
proof -
  have a: "two_bars \<noteq> []" by (simp add: two_bars_def)
  have b: "\<forall>i\<in>set two_bars. \<bar>snd i\<bar> < 2 ^ 1000" by (simp add: two_bars_def)
  have c: "Max (set (map snd two_bars)) \<noteq> 0" by (simp add: two_bars_def)
  have d: "reduce_and_sort (senders small_chat) = [(str_of ''Al'', 2), (str_of ''Bo'', 1)]"
    by code_simp
  have e: "reduce_fav_item (reduce_and_sort (fav_word small_chat)) \<noteq> []"
    by code_simp
  have f: "slice_to 1 (reduce_and_sort (senders small_chat)) \<noteq> []"
    by (simp add: d slice_to_def)
  have g: "int (length (senders small_chat)) < 2 ^ 1000 \<and>
    int (length (all_words small_chat)) < 2 ^ 1000 \<and>
    int (length (all_domains small_chat)) < 2 ^ 1000 \<and>
    int (length (all_emojis small_chat)) < 2 ^ 1000 \<and>
    int (length (fav_emoji small_chat)) < 2 ^ 1000 \<and>
    int (length (fav_word small_chat)) < 2 ^ 1000"
    by (simp add: small_chat_def chat_counter_init_def)
  note t = printBarChart_division_guard [where data = two_bars and xs = "senders small_chat"
      and ps = "fav_word small_chat" and n = 1 and cc = small_chat and demojize = id
      and U = ascii_db and stop_words = "[]"]
  from t a b c
  have 1: "\<exists>bars. printBarChart two_bars = Inr bars \<and> length bars = length two_bars \<and>
      list_all is_bar bars"
    by blast
  from t have 2: "\<forall>p\<in>set (reduce_and_sort (senders small_chat)). 1 \<le> snd p"
    and 3: "\<forall>p\<in>set (reduce_fav_item (reduce_and_sort (fav_word small_chat))). 1 \<le> snd p"
    by blast+
  from t f
  have 4: "1 \<le> Max (set (map snd (slice_to 1 (reduce_and_sort (senders small_chat)))))"
    by blast
  from t g
  have 5: "(\<exists>lines. section_senders 1 (reduce_and_sort (senders small_chat)) = Inr lines) \<and>
   (\<exists>lines. section_domains 1 (reduce_and_sort (all_domains small_chat)) = Inr lines) \<and>
   (\<exists>lines. section_emojis id 1 (reduce_and_sort (all_emojis small_chat)) = Inr lines) \<and>
   (\<exists>lines. section_fav_emoji id 1 (fav_emoji_table small_chat) = Inr lines) \<and>
   (\<exists>lines. section_words 1 (words_table ascii_db [] small_chat) = Inr lines) \<and>
   (\<exists>lines. section_fav_word 1 (fav_word_table ascii_db [] small_chat) = Inr lines)"
    by blast
  from a b c d e f g 1 2 3 4 5 show ?thesis
    by (simp only: list_all_iff) blast
qed

end
